theory Spec2Isabelle
  imports Main "HOL-Library.AList"
begin

section \<open>The coalescing coordinator of \<^verbatim>\<open>src/_sync.py\<close> and \<^verbatim>\<open>src/_async.py\<close>\<close>

text \<open>
  \<^verbatim>\<open>SharedCall.call\<close> and \<^verbatim>\<open>AsyncSharedCall.call\<close> are the same program up to
  \<^verbatim>\<open>async\<close>/\<^verbatim>\<open>await\<close>. Callers run concurrently, so one call is not a function from
  state to state: it is a sequence of steps, and steps of different callers interleave.
  The model is a step function on a system state, driven by a schedule (a list of
  actions). A step is a piece of \<^verbatim>\<open>call\<close> that runs without interference:
  \<^item> a block under \<^verbatim>\<open>with self.lock\<close> (lines 35-45 and 54-56 of \<^verbatim>\<open>_sync.py\<close>) is one
    step, which is what the lock is for;
  \<^item> the body of the \<^verbatim>\<open>try\<close> statement (lines 48-52: the work function runs, its result
    is stored, the error counter is bumped) is one step; the work function is user code
    and the schedule supplies what it returned or raised;
  \<^item> \<^verbatim>\<open>fn_call.event.set()\<close> (line 57) is one step;
  \<^item> \<^verbatim>\<open>fn_call.event.wait()\<close> followed by \<^verbatim>\<open>unwrap()\<close> (lines 59-60) is one step, enabled
    only once the event is set: a caller that waits is a caller whose step is not enabled.
  A work function that itself calls \<^verbatim>\<open>call\<close> is outside the model.
\<close>

subsection \<open>Exceptions, results and statistics\<close>

text \<open>
  An exception object is known by its identity and by whether its class derives from
  \<^verbatim>\<open>Exception\<close>: the handler of line 50 is \<^verbatim>\<open>except Exception\<close>, which lets
  \<^verbatim>\<open>KeyboardInterrupt\<close>, \<^verbatim>\<open>SystemExit\<close> and \<^verbatim>\<open>asyncio.CancelledError\<close> pass.
\<close>

datatype exc = Exception nat | BaseException nat

fun caught :: "exc \<Rightarrow> bool" where
  "caught (Exception n) = True"
| "caught (BaseException n) = False"

text \<open>
  Modelled from the spec: the class \<^verbatim>\<open>Result\<close> of \<^verbatim>\<open>src/_core.py\<close>, which is not among the
  sources. The spec gives it as a tagged union of unset, success and failure, and calls
  reading an unset result a programming-logic error; \<open>UnsetRead\<close> stands for whatever
  \<^verbatim>\<open>unwrap\<close> does then.
\<close>

datatype 'v result = Unset | Success 'v | Failure exc

datatype 'v outcome = Returned 'v | Raised exc | UnsetRead

fun unwrap :: "'v result \<Rightarrow> 'v outcome" where
  "unwrap Unset = UnsetRead"
| "unwrap (Success v) = Returned v"
| "unwrap (Failure e) = Raised e"

text \<open>
  Modelled from the spec: the dataclass \<^verbatim>\<open>Stats\<close> of \<^verbatim>\<open>src/_core.py\<close>, four counters that
  start at zero. Python integers are unbounded.
\<close>

record stats =
  hits :: int
  misses :: int
  errors :: int
  in_flight :: int

definition Stats :: stats where
  "Stats = \<lparr>hits = 0, misses = 0, errors = 0, in_flight = 0\<rparr>"

subsection \<open>Objects and callers\<close>

text \<open>
  \<^verbatim>\<open>SyncCall\<close> (\<^verbatim>\<open>AsyncCall\<close>) has the fields \<open>result\<close> and \<open>event\<close>. The fields \<open>runs\<close> and
  \<open>sets\<close> are history counters that no step reads: how often the work function ran for
  this object and how often \<^verbatim>\<open>event.set()\<close> was called on it.
\<close>

record 'v sync_call =
  result :: "'v result"
  event :: bool
  runs :: nat
  sets :: nat

definition SyncCall :: "'v sync_call" where
  "SyncCall = \<lparr>result = Unset, event = False, runs = 0, sets = 0\<rparr>"

text \<open>
  Where a caller stands in \<^verbatim>\<open>call\<close>, with the local variable \<^verbatim>\<open>fn_call\<close> (a reference, here
  an index into the heap of \<^verbatim>\<open>SyncCall\<close> objects) once it is bound. \<^verbatim>\<open>is_leader\<close> is true at
  \<open>Leading\<close>, \<open>Finishing\<close> and \<open>Signalling\<close> only. The exception carried by \<open>Finishing\<close>
  and \<open>Signalling\<close> is the one that \<^verbatim>\<open>except Exception\<close> did not catch and that is
  re-raised when the \<^verbatim>\<open>finally\<close> block ends.
\<close>

datatype 'v pc =
    AtLock
  | Leading nat
  | Finishing nat "exc option"
  | Signalling nat "exc option"
  | Waiting nat
  | Done "nat option" "'v outcome"

record 'v caller =
  key :: string
  pc :: "'v pc"

text \<open>
  The coordinator (\<^verbatim>\<open>self.in_flight\<close>, here \<open>in_flight_calls\<close> since \<^verbatim>\<open>Stats\<close> has a field
  of the same name, and \<^verbatim>\<open>self.stats\<close>), the heap of call objects and the callers. The
  dict is an association list in insertion order with one pair per key.
\<close>

record 'v system =
  in_flight_calls :: "(string \<times> nat) list"
  stats :: stats
  heap :: "'v sync_call list"
  callers :: "'v caller list"

definition SharedCall :: "'v system" where
  "SharedCall = \<lparr>in_flight_calls = [], stats = Stats, heap = [], callers = []\<rparr>"

subsection \<open>Key derivation (lines 32-33)\<close>

text \<open>
  \<^verbatim>\<open>if not key\<close> holds for \<^verbatim>\<open>None\<close> and for the empty string. \<^verbatim>\<open>generate_key\<close> is in
  \<^verbatim>\<open>src/_core.py\<close>, not among the sources: what it returns or raises for the arguments of
  the call is a parameter.
\<close>

fun falsy :: "string option \<Rightarrow> bool" where
  "falsy None = True"
| "falsy (Some k) = (k = [])"

definition call_key :: "string option \<Rightarrow> string \<Rightarrow> string \<Rightarrow> exc + string \<Rightarrow> exc + string" where
  "call_key k fn_module fn_name generate_key =
     (if falsy k then
        (case generate_key of
           Inl e \<Rightarrow> Inl e
         | Inr g \<Rightarrow> Inr (fn_module @ ''.'' @ fn_name @ '':'' @ g))
      else Inr (the k))"

subsection \<open>Steps\<close>

datatype 'v action =
    Invoke "string option" string string "exc + string"
  | Register nat
  | Work nat "exc + 'v"
  | Cleanup nat
  | SetEvent nat
  | Return nat
  | ResetStats
  | Forget string
  | ForgetAll

definition at_pc :: "'v system \<Rightarrow> nat \<Rightarrow> 'v pc option" where
  "at_pc s t = (if t < length (callers s) then Some (pc (callers s ! t)) else None)"

definition goto :: "nat \<Rightarrow> 'v pc \<Rightarrow> 'v system \<Rightarrow> 'v system" where
  "goto t p s = s\<lparr>callers := (callers s)[t := (callers s ! t)\<lparr>pc := p\<rparr>]\<rparr>"

text \<open>Lines 35-45, under the lock.\<close>

definition register :: "nat \<Rightarrow> 'v system \<Rightarrow> 'v system" where
  "register t s =
     (let k = key (callers s ! t) in
      case map_of (in_flight_calls s) k of
        Some c \<Rightarrow>
          goto t (Waiting c) (s\<lparr>stats := (stats s)\<lparr>hits := hits (stats s) + 1\<rparr>\<rparr>)
      | None \<Rightarrow>
          goto t (Leading (length (heap s)))
            (s\<lparr>stats := (stats s)\<lparr>misses := misses (stats s) + 1,
                                   in_flight := in_flight (stats s) + 1\<rparr>,
               heap := heap s @ [SyncCall],
               in_flight_calls := AList.update k (length (heap s)) (in_flight_calls s)\<rparr>))"

text \<open>Lines 48-52: the work function returns \<open>v\<close> or raises \<open>e\<close>.\<close>

definition work :: "nat \<Rightarrow> nat \<Rightarrow> exc + 'v \<Rightarrow> 'v system \<Rightarrow> 'v system" where
  "work t c r s =
     (let ran = (heap s ! c)\<lparr>runs := runs (heap s ! c) + 1\<rparr> in
      case r of
        Inr v \<Rightarrow>
          goto t (Finishing c None) (s\<lparr>heap := (heap s)[c := ran\<lparr>result := Success v\<rparr>]\<rparr>)
      | Inl e \<Rightarrow>
          if caught e then
            goto t (Finishing c None)
              (s\<lparr>heap := (heap s)[c := ran\<lparr>result := Failure e\<rparr>],
                 stats := (stats s)\<lparr>errors := errors (stats s) + 1\<rparr>\<rparr>)
          else
            goto t (Finishing c (Some e)) (s\<lparr>heap := (heap s)[c := ran]\<rparr>))"

text \<open>Lines 54-56, under the lock.\<close>

definition cleanup :: "nat \<Rightarrow> nat \<Rightarrow> exc option \<Rightarrow> 'v system \<Rightarrow> 'v system" where
  "cleanup t c x s =
     goto t (Signalling c x)
       (s\<lparr>in_flight_calls := AList.delete (key (callers s ! t)) (in_flight_calls s),
          stats := (stats s)\<lparr>in_flight := in_flight (stats s) - 1\<rparr>\<rparr>)"

text \<open>Line 57, after which an exception in flight leaves \<^verbatim>\<open>call\<close>.\<close>

definition set_event :: "nat \<Rightarrow> nat \<Rightarrow> exc option \<Rightarrow> 'v system \<Rightarrow> 'v system" where
  "set_event t c x s =
     goto t (case x of None \<Rightarrow> Waiting c | Some e \<Rightarrow> Done (Some c) (Raised e))
       (s\<lparr>heap := (heap s)[c := (heap s ! c)\<lparr>event := True, sets := sets (heap s ! c) + 1\<rparr>]\<rparr>)"

text \<open>\<^verbatim>\<open>get_stats\<close> returns a copy of the counters; the other three are lines 67-80.\<close>

definition get_stats :: "'v system \<Rightarrow> stats" where
  "get_stats s = stats s"

definition reset_stats :: "'v system \<Rightarrow> 'v system" where
  "reset_stats s = s\<lparr>stats := Stats\<rparr>"

definition forget :: "string \<Rightarrow> 'v system \<Rightarrow> 'v system" where
  "forget k s = s\<lparr>in_flight_calls := AList.delete k (in_flight_calls s)\<rparr>"

definition forget_all :: "'v system \<Rightarrow> 'v system" where
  "forget_all s = s\<lparr>in_flight_calls := []\<rparr>"

text \<open>
  One step of the system; \<open>None\<close> when the action is not enabled (the caller does not
  exist, stands elsewhere, or waits for an event that is not set).
\<close>

fun step :: "'v action \<Rightarrow> 'v system \<Rightarrow> 'v system option" where
  "step (Invoke k m n g) s =
     (case call_key k m n g of
        Inl e \<Rightarrow>
          Some (s\<lparr>callers := callers s @ [\<lparr>key = [], pc = Done None (Raised e)\<rparr>]\<rparr>)
      | Inr k' \<Rightarrow> Some (s\<lparr>callers := callers s @ [\<lparr>key = k', pc = AtLock\<rparr>]\<rparr>))"
| "step (Register t) s =
     (case at_pc s t of Some AtLock \<Rightarrow> Some (register t s) | _ \<Rightarrow> None)"
| "step (Work t r) s =
     (case at_pc s t of Some (Leading c) \<Rightarrow> Some (work t c r s) | _ \<Rightarrow> None)"
| "step (Cleanup t) s =
     (case at_pc s t of Some (Finishing c x) \<Rightarrow> Some (cleanup t c x s) | _ \<Rightarrow> None)"
| "step (SetEvent t) s =
     (case at_pc s t of Some (Signalling c x) \<Rightarrow> Some (set_event t c x s) | _ \<Rightarrow> None)"
| "step (Return t) s =
     (case at_pc s t of
        Some (Waiting c) \<Rightarrow>
          if event (heap s ! c)
          then Some (goto t (Done (Some c) (unwrap (result (heap s ! c)))) s)
          else None
      | _ \<Rightarrow> None)"
| "step ResetStats s = Some (reset_stats s)"
| "step (Forget k) s = Some (forget k s)"
| "step ForgetAll s = Some (forget_all s)"

fun run :: "'v action list \<Rightarrow> 'v system \<Rightarrow> 'v system option" where
  "run [] s = Some s"
| "run (a # as) s = (case step a s of None \<Rightarrow> None | Some s' \<Rightarrow> run as s')"

subsection \<open>Schedules and what holds in every reachable state\<close>

text \<open>
  \<open>leads s t c\<close>: caller \<open>t\<close> is the leader of call object \<open>c\<close> and has not yet set its
  event. \<open>attached_to s t c\<close>: the variable \<^verbatim>\<open>fn_call\<close> of caller \<open>t\<close> refers to \<open>c\<close>.
\<close>

definition key_of :: "'v system \<Rightarrow> nat \<Rightarrow> string" where
  "key_of s t = key (callers s ! t)"

fun active :: "'v pc \<Rightarrow> nat option" where
  "active (Leading c) = Some c"
| "active (Finishing c x) = Some c"
| "active (Signalling c x) = Some c"
| "active AtLock = None"
| "active (Waiting c) = None"
| "active (Done a b) = None"

fun attached :: "'v pc \<Rightarrow> nat option" where
  "attached AtLock = None"
| "attached (Leading c) = Some c"
| "attached (Finishing c x) = Some c"
| "attached (Signalling c x) = Some c"
| "attached (Waiting c) = Some c"
| "attached (Done a b) = a"

definition leads :: "'v system \<Rightarrow> nat \<Rightarrow> nat \<Rightarrow> bool" where
  "leads s t c = (case at_pc s t of None \<Rightarrow> False | Some p \<Rightarrow> active p = Some c)"

definition attached_to :: "'v system \<Rightarrow> nat \<Rightarrow> nat \<Rightarrow> bool" where
  "attached_to s t c = (case at_pc s t of None \<Rightarrow> False | Some p \<Rightarrow> attached p = Some c)"

definition refs_ok :: "'v system \<Rightarrow> bool" where
  "refs_ok s = (\<forall>t c. attached_to s t c \<longrightarrow> c < length (heap s))"

definition registry_ok :: "'v system \<Rightarrow> bool" where
  "registry_ok s =
     (distinct (map fst (in_flight_calls s)) \<and>
      (\<forall>k c. (k, c) \<in> set (in_flight_calls s) \<longrightarrow> c < length (heap s) \<and> \<not> event (heap s ! c)))"

definition one_leader :: "'v system \<Rightarrow> bool" where
  "one_leader s = (\<forall>t u c. leads s t c \<longrightarrow> leads s u c \<longrightarrow> t = u)"

definition leader_ok :: "'v system \<Rightarrow> bool" where
  "leader_ok s =
     (\<forall>t c. leads s t c \<longrightarrow>
        \<not> event (heap s ! c) \<and> sets (heap s ! c) = 0 \<and>
        runs (heap s ! c) = (if at_pc s t = Some (Leading c) then 0 else 1) \<and>
        (at_pc s t = Some (Leading c) \<longrightarrow> result (heap s ! c) = Unset))"

definition entry_ok :: "'v system \<Rightarrow> bool" where
  "entry_ok s =
     (\<forall>k c t. (k, c) \<in> set (in_flight_calls s) \<longrightarrow> leads s t c \<longrightarrow>
        key_of s t = k \<and> (\<forall>x. at_pc s t \<noteq> Some (Signalling c x)))"

definition done_ok :: "'v system \<Rightarrow> bool" where
  "done_ok s =
     (\<forall>t c out. at_pc s t = Some (Done (Some c) out) \<longrightarrow>
        event (heap s ! c) \<and>
        (out = unwrap (result (heap s ! c)) \<or>
         (\<exists>e. out = Raised e \<and> \<not> caught e \<and> result (heap s ! c) = Unset)))"

definition pending_ok :: "'v system \<Rightarrow> bool" where
  "pending_ok s =
     (\<forall>t c e. at_pc s t = Some (Finishing c (Some e)) \<or> at_pc s t = Some (Signalling c (Some e)) \<longrightarrow>
        \<not> caught e \<and> result (heap s ! c) = Unset)"

definition signalled_ok :: "'v system \<Rightarrow> bool" where
  "signalled_ok s =
     (\<forall>c. c < length (heap s) \<longrightarrow> event (heap s ! c) \<longrightarrow>
        runs (heap s ! c) = 1 \<and> sets (heap s ! c) = 1)"

definition led_ok :: "'v system \<Rightarrow> bool" where
  "led_ok s = (\<forall>c. c < length (heap s) \<longrightarrow> \<not> event (heap s ! c) \<longrightarrow> (\<exists>t. leads s t c))"

definition coherent :: "'v system \<Rightarrow> bool" where
  "coherent s = (refs_ok s \<and> registry_ok s \<and> one_leader s \<and> leader_ok s \<and> entry_ok s \<and>
            done_ok s \<and> pending_ok s \<and> signalled_ok s \<and> led_ok s)"

text \<open>How often a work function has run, over all call objects.\<close>

definition executions :: "'v system \<Rightarrow> nat" where
  "executions s = sum_list (map runs (heap s))"

text \<open>The steps of a caller that has registered.\<close>

fun attached_step :: "'v action \<Rightarrow> bool" where
  "attached_step (Work t r) = True"
| "attached_step (Cleanup t) = True"
| "attached_step (SetEvent t) = True"
| "attached_step (Return t) = True"
| "attached_step (Invoke k m n g) = False"
| "attached_step (Register t) = False"
| "attached_step ResetStats = False"
| "attached_step (Forget k) = False"
| "attached_step ForgetAll = False"

text \<open>Every caller has left \<^verbatim>\<open>call\<close>.\<close>

fun finished :: "'v pc \<Rightarrow> bool" where
  "finished (Done a b) = True"
| "finished AtLock = False"
| "finished (Leading c) = False"
| "finished (Finishing c x) = False"
| "finished (Signalling c x) = False"
| "finished (Waiting c) = False"

definition all_done :: "'v system \<Rightarrow> bool" where
  "all_done s = list_all (\<lambda>c. finished (pc c)) (callers s)"

subsection \<open>Counting\<close>

text \<open>
  \<open>flying\<close>: a leader from its registration to the end of lines 54-56. \<open>registered\<close>: a
  caller that has gone through lines 35-45. \<open>failed\<close>: a result that holds a failure.
\<close>

fun flying :: "'v pc \<Rightarrow> bool" where
  "flying (Leading c) = True"
| "flying (Finishing c x) = True"
| "flying AtLock = False"
| "flying (Signalling c x) = False"
| "flying (Waiting c) = False"
| "flying (Done a b) = False"

definition registered :: "'v pc \<Rightarrow> bool" where
  "registered p = (attached p \<noteq> None)"

fun failed :: "'v result \<Rightarrow> bool" where
  "failed (Failure e) = True"
| "failed Unset = False"
| "failed (Success v) = False"

definition count_pc :: "('v pc \<Rightarrow> bool) \<Rightarrow> 'v system \<Rightarrow> nat" where
  "count_pc P s = length (filter (\<lambda>c. P (pc c)) (callers s))"

definition failures :: "'v system \<Rightarrow> nat" where
  "failures s = length (filter (\<lambda>h. failed (result h)) (heap s))"

definition ledger :: "'v system \<Rightarrow> bool" where
  "ledger s =
     (misses (stats s) = int (length (heap s)) \<and>
      hits (stats s) + misses (stats s) = int (count_pc registered s) \<and>
      in_flight (stats s) = int (count_pc flying s) \<and>
      errors (stats s) = int (failures s))"

fun is_reset :: "'v action \<Rightarrow> bool" where
  "is_reset ResetStats = True"
| "is_reset (Invoke k m n g) = False"
| "is_reset (Register t) = False"
| "is_reset (Work t r) = False"
| "is_reset (Cleanup t) = False"
| "is_reset (SetEvent t) = False"
| "is_reset (Return t) = False"
| "is_reset (Forget k) = False"
| "is_reset ForgetAll = False"

fun is_forget :: "'v action \<Rightarrow> bool" where
  "is_forget (Forget k) = True"
| "is_forget ForgetAll = True"
| "is_forget ResetStats = False"
| "is_forget (Invoke k m n g) = False"
| "is_forget (Register t) = False"
| "is_forget (Work t r) = False"
| "is_forget (Cleanup t) = False"
| "is_forget (SetEvent t) = False"
| "is_forget (Return t) = False"

text \<open>Schedules without \<^verbatim>\<open>reset_stats\<close>, and schedules of calls only.\<close>

definition reset_free :: "'v action list \<Rightarrow> bool" where
  "reset_free as = list_all (\<lambda>a. \<not> is_reset a) as"

definition forget_free :: "'v action list \<Rightarrow> bool" where
  "forget_free as = list_all (\<lambda>a. \<not> is_forget a) as"

text \<open>Every leader in flight has its entry in the registry.\<close>

definition present :: "'v system \<Rightarrow> bool" where
  "present s =
     (\<forall>t p c. at_pc s t = Some p \<longrightarrow> flying p \<longrightarrow> attached p = Some c \<longrightarrow>
        (key_of s t, c) \<in> set (in_flight_calls s))"

subsection \<open>Concurrent calls for one key\<close>

text \<open>
  The schedules of \<open>N\<close> calls that share the key \<open>K\<close> and overlap: every invocation derives
  the key \<open>K\<close>, and every caller registers (lines 35-45) before any leader reaches lines
  54-56, that is, while the key is in flight. \<open>ordinary_failures\<close>: what a work function
  raises derives from \<^verbatim>\<open>Exception\<close>.
\<close>

fun is_register :: "'v action \<Rightarrow> bool" where
  "is_register (Register t) = True"
| "is_register (Invoke k m n g) = False"
| "is_register (Work t r) = False"
| "is_register (Cleanup t) = False"
| "is_register (SetEvent t) = False"
| "is_register (Return t) = False"
| "is_register ResetStats = False"
| "is_register (Forget k) = False"
| "is_register ForgetAll = False"

fun is_cleanup :: "'v action \<Rightarrow> bool" where
  "is_cleanup (Cleanup t) = True"
| "is_cleanup (Invoke k m n g) = False"
| "is_cleanup (Register t) = False"
| "is_cleanup (Work t r) = False"
| "is_cleanup (SetEvent t) = False"
| "is_cleanup (Return t) = False"
| "is_cleanup ResetStats = False"
| "is_cleanup (Forget k) = False"
| "is_cleanup ForgetAll = False"

fun registrations_first :: "'v action list \<Rightarrow> bool" where
  "registrations_first [] = True"
| "registrations_first (a # as) =
     (if is_cleanup a then list_all (\<lambda>b. \<not> is_register b) as else registrations_first as)"

fun invokes_key :: "string \<Rightarrow> 'v action \<Rightarrow> bool" where
  "invokes_key K (Invoke k m n g) = (call_key k m n g = Inr K)"
| "invokes_key K (Register t) = True"
| "invokes_key K (Work t r) = True"
| "invokes_key K (Cleanup t) = True"
| "invokes_key K (SetEvent t) = True"
| "invokes_key K (Return t) = True"
| "invokes_key K ResetStats = True"
| "invokes_key K (Forget k) = True"
| "invokes_key K ForgetAll = True"

definition same_key :: "string \<Rightarrow> 'v action list \<Rightarrow> bool" where
  "same_key K as = list_all (invokes_key K) as"

fun raises_exception :: "'v action \<Rightarrow> bool" where
  "raises_exception (Work t (Inl e)) = caught e"
| "raises_exception (Work t (Inr v)) = True"
| "raises_exception (Invoke k m n g) = True"
| "raises_exception (Register t) = True"
| "raises_exception (Cleanup t) = True"
| "raises_exception (SetEvent t) = True"
| "raises_exception (Return t) = True"
| "raises_exception ResetStats = True"
| "raises_exception (Forget k) = True"
| "raises_exception ForgetAll = True"

definition ordinary_failures :: "'v action list \<Rightarrow> bool" where
  "ordinary_failures as = list_all raises_exception as"

fun returned :: "'v pc \<Rightarrow> bool" where
  "returned (Done (Some c) (Returned v)) = True"
| "returned (Done (Some c) (Raised e)) = False"
| "returned (Done (Some c) UnsetRead) = False"
| "returned (Done None b) = False"
| "returned AtLock = False"
| "returned (Leading c) = False"
| "returned (Finishing c x) = False"
| "returned (Signalling c x) = False"
| "returned (Waiting c) = False"

definition all_returned :: "'v system \<Rightarrow> bool" where
  "all_returned s = list_all (\<lambda>c. returned (pc c)) (callers s)"

text \<open>
  \<open>keyed K\<close>: every caller has the key \<open>K\<close> and none has left \<^verbatim>\<open>call\<close> before registering.
  \<open>gathering K\<close>: at most one call object, still registered under \<open>K\<close>. \<open>calm\<close>: no
  exception is passing through a \<^verbatim>\<open>finally\<close> block and every caller that has left
  \<^verbatim>\<open>call\<close> was given what \<^verbatim>\<open>unwrap\<close> makes of the result of its call object.
\<close>

definition keyed :: "string \<Rightarrow> 'v system \<Rightarrow> bool" where
  "keyed K s =
     (\<forall>t p. at_pc s t = Some p \<longrightarrow> key_of s t = K \<and> (finished p \<longrightarrow> attached p \<noteq> None))"

definition gathering :: "string \<Rightarrow> 'v system \<Rightarrow> bool" where
  "gathering K s =
     (length (heap s) \<le> 1 \<and> (heap s \<noteq> [] \<longrightarrow> map_of (in_flight_calls s) K \<noteq> None))"

definition calm :: "'v system \<Rightarrow> bool" where
  "calm s =
     ((\<forall>t c e. at_pc s t \<noteq> Some (Finishing c (Some e)) \<and>
               at_pc s t \<noteq> Some (Signalling c (Some e))) \<and>
      (\<forall>t c out. at_pc s t = Some (Done (Some c) out) \<longrightarrow> out = unwrap (result (heap s ! c))))"

subsection \<open>Steps, one field at a time\<close>

lemma goto_fields [simp]:
  "in_flight_calls (goto t p s) = in_flight_calls s"
  "stats (goto t p s) = stats s"
  "heap (goto t p s) = heap s"
  "length (callers (goto t p s)) = length (callers s)"
  by (simp_all add: goto_def)

lemma key_of_goto [simp]: "key_of (goto u p s) t = key_of s t"
  by (cases "u < length (callers s)"; cases "t = u") (simp_all add: key_of_def goto_def list_update_beyond)

lemma at_pc_goto: "at_pc (goto u p s) t = (if t = u \<and> u < length (callers s) then Some p else at_pc s t)"
  by (auto simp: at_pc_def goto_def)

lemma at_pc_goto_here [simp]:
  "at_pc s u = Some q \<Longrightarrow> at_pc (goto u p s) t = (if t = u then Some p else at_pc s t)"
  by (auto simp: at_pc_def goto_def split: if_splits)

lemma at_pc_upd [simp]:
  "at_pc (s\<lparr>stats := st\<rparr>) t = at_pc s t"
  "at_pc (s\<lparr>heap := h\<rparr>) t = at_pc s t"
  "at_pc (s\<lparr>in_flight_calls := r\<rparr>) t = at_pc s t"
  by (simp_all add: at_pc_def)

lemma key_of_upd [simp]:
  "key_of (s\<lparr>stats := st\<rparr>) t = key_of s t"
  "key_of (s\<lparr>heap := h\<rparr>) t = key_of s t"
  "key_of (s\<lparr>in_flight_calls := r\<rparr>) t = key_of s t"
  by (simp_all add: key_of_def)

lemma at_pc_new:
  "at_pc (s\<lparr>callers := callers s @ [x]\<rparr>) t =
     (if t = length (callers s) then Some (pc x) else at_pc s t)"
  by (auto simp: at_pc_def nth_append)

lemma key_of_new:
  "at_pc s t = Some p \<Longrightarrow> key_of (s\<lparr>callers := callers s @ [x]\<rparr>) t = key_of s t"
  by (auto simp: at_pc_def key_of_def nth_append split: if_splits)

lemma update_absent: "map_of al k = None \<Longrightarrow> AList.update k v al = al @ [(k, v)]"
  by (induction al) (auto split: if_splits)

lemma set_delete: "set (AList.delete k al) = {p \<in> set al. fst p \<noteq> k}"
  by (auto simp: AList.delete_eq)

lemma step_Invoke:
  "step (Invoke k m n g) s = Some s' \<Longrightarrow> \<exists>x. s' = s\<lparr>callers := callers s @ [x]\<rparr> \<and> (pc x = AtLock \<or> (\<exists>e. pc x = Done None (Raised e)))"
  by (auto split: sum.splits)

lemma step_Register:
  "step (Register t) s = Some s' \<Longrightarrow> at_pc s t = Some AtLock \<and> s' = register t s"
  by (auto split: option.splits pc.splits)

lemma step_Work:
  "step (Work t r) s = Some s' \<Longrightarrow> \<exists>c. at_pc s t = Some (Leading c) \<and> s' = work t c r s"
  by (auto split: option.splits pc.splits)

lemma step_Cleanup:
  "step (Cleanup t) s = Some s' \<Longrightarrow> \<exists>c x. at_pc s t = Some (Finishing c x) \<and> s' = cleanup t c x s"
  by (auto split: option.splits pc.splits)

lemma step_SetEvent:
  "step (SetEvent t) s = Some s' \<Longrightarrow> \<exists>c x. at_pc s t = Some (Signalling c x) \<and> s' = set_event t c x s"
  by (auto split: option.splits pc.splits)

lemma step_Return:
  "step (Return t) s = Some s' \<Longrightarrow>
     \<exists>c. at_pc s t = Some (Waiting c) \<and> event (heap s ! c) \<and>
         s' = goto t (Done (Some c) (unwrap (result (heap s ! c)))) s"
  by (auto split: option.splits pc.splits if_splits)

lemma register_follower:
  "map_of (in_flight_calls s) (key_of s t) = Some c \<Longrightarrow>
     register t s = goto t (Waiting c) (s\<lparr>stats := (stats s)\<lparr>hits := hits (stats s) + 1\<rparr>\<rparr>)"
  by (simp add: register_def key_of_def)

lemma register_leader:
  "map_of (in_flight_calls s) (key_of s t) = None \<Longrightarrow>
     register t s = goto t (Leading (length (heap s)))
            (s\<lparr>stats := (stats s)\<lparr>misses := misses (stats s) + 1,
                                   in_flight := in_flight (stats s) + 1\<rparr>,
               heap := heap s @ [SyncCall],
               in_flight_calls := in_flight_calls s @ [(key_of s t, length (heap s))]\<rparr>)"
  by (simp add: register_def key_of_def update_absent)

lemma leads_goto [simp]:
  "at_pc s u = Some q \<Longrightarrow> leads (goto u p s) t c = (if t = u then active p = Some c else leads s t c)"
  by (simp add: leads_def)

lemma attached_goto [simp]:
  "at_pc s u = Some q \<Longrightarrow> attached_to (goto u p s) t c = (if t = u then attached p = Some c else attached_to s t c)"
  by (simp add: attached_to_def)

lemma leads_upd [simp]:
  "leads (s\<lparr>stats := st\<rparr>) t c = leads s t c"
  "leads (s\<lparr>heap := h\<rparr>) t c = leads s t c"
  "leads (s\<lparr>in_flight_calls := r\<rparr>) t c = leads s t c"
  by (simp_all add: leads_def)

lemma attached_upd [simp]:
  "attached_to (s\<lparr>stats := st\<rparr>) t c = attached_to s t c"
  "attached_to (s\<lparr>heap := h\<rparr>) t c = attached_to s t c"
  "attached_to (s\<lparr>in_flight_calls := r\<rparr>) t c = attached_to s t c"
  by (simp_all add: attached_to_def)

lemma leads_attached: "leads s t c \<Longrightarrow> attached_to s t c"
  by (auto simp: leads_def attached_to_def split: option.splits elim: active.elims)

lemmas coherent_defs = coherent_def refs_ok_def registry_ok_def one_leader_def leader_ok_def entry_ok_def
  done_ok_def pending_ok_def signalled_ok_def led_ok_def

lemma inv_init: "coherent SharedCall"
  by (simp add: coherent_defs SharedCall_def leads_def attached_to_def at_pc_def)

lemma leads_at [simp]: "at_pc s t = Some p \<Longrightarrow> leads s t c = (active p = Some c)"
  by (simp add: leads_def)

lemma attached_at [simp]: "at_pc s t = Some p \<Longrightarrow> attached_to s t c = (attached p = Some c)"
  by (simp add: attached_to_def)

lemma leads_new [simp]:
  "leads (s\<lparr>callers := callers s @ [x]\<rparr>) t c =
     (if t = length (callers s) then active (pc x) = Some c else leads s t c)"
  by (simp add: leads_def at_pc_new)

lemma attached_new [simp]:
  "attached_to (s\<lparr>callers := callers s @ [x]\<rparr>) t c =
     (if t = length (callers s) then attached (pc x) = Some c else attached_to s t c)"
  by (simp add: attached_to_def at_pc_new)

lemma leads_key_new:
  "leads s t c \<Longrightarrow> key_of (s\<lparr>callers := callers s @ [x]\<rparr>) t = key_of s t"
  by (auto simp: leads_def key_of_new split: option.splits)

lemma step_cases [consumes 1, case_names Invoke RegisterF RegisterL WorkOk WorkErr WorkBase
    Cleanup SetEvent Return Reset Forget ForgetAll]:
  assumes "step a s = Some s'"
  obtains
    k m n g x where "a = Invoke k m n g" "s' = s\<lparr>callers := callers s @ [x]\<rparr>"
      "pc x = AtLock \<or> (\<exists>e. pc x = Done None (Raised e))"
  | t c where "a = Register t" "at_pc s t = Some AtLock"
      "map_of (in_flight_calls s) (key_of s t) = Some c"
      "s' = goto t (Waiting c) (s\<lparr>stats := (stats s)\<lparr>hits := hits (stats s) + 1\<rparr>\<rparr>)"
  | t where "a = Register t" "at_pc s t = Some AtLock"
      "map_of (in_flight_calls s) (key_of s t) = None"
      "s' = goto t (Leading (length (heap s)))
            (s\<lparr>stats := (stats s)\<lparr>misses := misses (stats s) + 1,
                                   in_flight := in_flight (stats s) + 1\<rparr>,
               heap := heap s @ [SyncCall],
               in_flight_calls := in_flight_calls s @ [(key_of s t, length (heap s))]\<rparr>)"
  | t c v where "a = Work t (Inr v)" "at_pc s t = Some (Leading c)"
      "s' = goto t (Finishing c None)
             (s\<lparr>heap := (heap s)[c := (heap s ! c)\<lparr>runs := runs (heap s ! c) + 1,
                                                   result := Success v\<rparr>]\<rparr>)"
  | t c e where "a = Work t (Inl e)" "caught e" "at_pc s t = Some (Leading c)"
      "s' = goto t (Finishing c None)
             (s\<lparr>heap := (heap s)[c := (heap s ! c)\<lparr>runs := runs (heap s ! c) + 1,
                                                   result := Failure e\<rparr>],
                stats := (stats s)\<lparr>errors := errors (stats s) + 1\<rparr>\<rparr>)"
  | t c e where "a = Work t (Inl e)" "\<not> caught e" "at_pc s t = Some (Leading c)"
      "s' = goto t (Finishing c (Some e))
             (s\<lparr>heap := (heap s)[c := (heap s ! c)\<lparr>runs := runs (heap s ! c) + 1\<rparr>]\<rparr>)"
  | t c x where "a = Cleanup t" "at_pc s t = Some (Finishing c x)"
      "s' = goto t (Signalling c x)
             (s\<lparr>in_flight_calls := AList.delete (key_of s t) (in_flight_calls s),
                stats := (stats s)\<lparr>in_flight := in_flight (stats s) - 1\<rparr>\<rparr>)"
  | t c x where "a = SetEvent t" "at_pc s t = Some (Signalling c x)"
      "s' = goto t (case x of None \<Rightarrow> Waiting c | Some e \<Rightarrow> Done (Some c) (Raised e))
             (s\<lparr>heap := (heap s)[c := (heap s ! c)\<lparr>event := True,
                                                   sets := sets (heap s ! c) + 1\<rparr>]\<rparr>)"
  | t c where "a = Return t" "at_pc s t = Some (Waiting c)" "event (heap s ! c)"
      "s' = goto t (Done (Some c) (unwrap (result (heap s ! c)))) s"
  | "a = ResetStats" "s' = s\<lparr>stats := Stats\<rparr>"
  | k where "a = Forget k" "s' = s\<lparr>in_flight_calls := AList.delete k (in_flight_calls s)\<rparr>"
  | "a = ForgetAll" "s' = s\<lparr>in_flight_calls := []\<rparr>"
proof (cases a)
  case (Invoke k m n g)
  then show ?thesis using assms that(1) by (auto split: sum.splits)
next
  case (Register t)
  then have *: "at_pc s t = Some AtLock" "s' = register t s"
    using assms step_Register by blast+
  show ?thesis
  proof (cases "map_of (in_flight_calls s) (key_of s t)")
    case None
    then show ?thesis using that(3) Register * by (simp add: register_leader)
  next
    case (Some c)
    then show ?thesis using that(2) Register * by (simp add: register_follower)
  qed
next
  case (Work t r)
  then obtain c where *: "at_pc s t = Some (Leading c)" "s' = work t c r s"
    using assms step_Work by blast
  show ?thesis
  proof (cases r)
    case (Inl e)
    then show ?thesis using that(5)[of t e c] that(6)[of t e c] Work *
      by (cases "caught e") (simp_all add: work_def Let_def)
  next
    case (Inr v)
    then show ?thesis using that(4) Work * by (simp add: work_def Let_def)
  qed
next
  case (Cleanup t)
  then show ?thesis using assms that(7) step_Cleanup[of t s s']
    by (auto simp: cleanup_def key_of_def)
next
  case (SetEvent t)
  then show ?thesis using assms that(8) step_SetEvent[of t s s']
    by (auto simp: set_event_def)
next
  case (Return t)
  then show ?thesis using assms that(9) step_Return[of t s s'] by auto
next
  case ResetStats
  then show ?thesis using assms that(10) by (simp add: reset_stats_def)
next
  case (Forget k)
  then show ?thesis using assms that(11) by (simp add: forget_def)
next
  case ForgetAll
  then show ?thesis using assms that(12) by (simp add: forget_all_def)
qed

lemma inv_refs: "coherent s \<Longrightarrow> attached_to s t c \<Longrightarrow> c < length (heap s)"
  by (simp add: coherent_def refs_ok_def)

lemma inv_leads_ref: "coherent s \<Longrightarrow> leads s t c \<Longrightarrow> c < length (heap s)"
  by (blast intro: inv_refs leads_attached)

lemma inv_fresh [simp]: "coherent s \<Longrightarrow> \<not> leads s t (length (heap s))"
  using inv_leads_ref by blast

lemma inv_fresh' [simp]: "coherent s \<Longrightarrow> \<not> attached_to s t (length (heap s))"
  using inv_refs by blast

lemma inv_entry_ref: "coherent s \<Longrightarrow> (k, c) \<in> set (in_flight_calls s) \<Longrightarrow> c < length (heap s)"
  by (simp add: coherent_def registry_ok_def)

lemma inv_entry_event: "coherent s \<Longrightarrow> (k, c) \<in> set (in_flight_calls s) \<Longrightarrow> \<not> event (heap s ! c)"
  by (simp add: coherent_def registry_ok_def)

lemma inv_distinct: "coherent s \<Longrightarrow> distinct (map fst (in_flight_calls s))"
  by (simp add: coherent_def registry_ok_def)

lemma inv_unique: "coherent s \<Longrightarrow> leads s t c \<Longrightarrow> leads s u c \<Longrightarrow> t = u"
  by (simp add: coherent_def one_leader_def)

lemma inv_leader:
  "coherent s \<Longrightarrow> leads s t c \<Longrightarrow>
     \<not> event (heap s ! c) \<and> sets (heap s ! c) = 0 \<and>
     runs (heap s ! c) = (if at_pc s t = Some (Leading c) then 0 else 1) \<and>
     (at_pc s t = Some (Leading c) \<longrightarrow> result (heap s ! c) = Unset)"
  by (simp add: coherent_def leader_ok_def)

lemma inv_entry:
  "coherent s \<Longrightarrow> (k, c) \<in> set (in_flight_calls s) \<Longrightarrow> leads s t c \<Longrightarrow>
     key_of s t = k \<and> (\<forall>x. at_pc s t \<noteq> Some (Signalling c x))"
  by (simp add: coherent_def entry_ok_def)

lemma inv_done:
  "coherent s \<Longrightarrow> at_pc s t = Some (Done (Some c) out) \<Longrightarrow>
     event (heap s ! c) \<and>
     (out = unwrap (result (heap s ! c)) \<or>
      (\<exists>e. out = Raised e \<and> \<not> caught e \<and> result (heap s ! c) = Unset))"
  by (simp add: coherent_def done_ok_def)

lemma inv_pending:
  "coherent s \<Longrightarrow> at_pc s t = Some (Finishing c (Some e)) \<or> at_pc s t = Some (Signalling c (Some e)) \<Longrightarrow>
     \<not> caught e \<and> result (heap s ! c) = Unset"
  unfolding coherent_def pending_ok_def by blast

lemma inv_signalled:
  "coherent s \<Longrightarrow> c < length (heap s) \<Longrightarrow> event (heap s ! c) \<Longrightarrow>
     runs (heap s ! c) = 1 \<and> sets (heap s ! c) = 1"
  by (simp add: coherent_def signalled_ok_def)

lemma inv_led: "coherent s \<Longrightarrow> c < length (heap s) \<Longrightarrow> \<not> event (heap s ! c) \<Longrightarrow> \<exists>t. leads s t c"
  by (simp add: coherent_def led_ok_def)

lemma absent_key: "map_of al k = None \<Longrightarrow> (k, c) \<notin> set al"
  by (metis map_of_eq_None_iff image_eqI fst_conv)

lemma inv_at_ref: "coherent s \<Longrightarrow> at_pc s t = Some p \<Longrightarrow> attached p = Some c \<Longrightarrow> c < length (heap s)"
  using inv_refs[of s t c] by simp

lemma inv_cases [consumes 2, case_names Invoke RegisterF RegisterL WorkOk WorkErr WorkBase
    Cleanup SetEvent Return Reset Forget ForgetAll]:
  assumes "step a s = Some s'" "coherent s"
  obtains
    k m n g x where "a = Invoke k m n g" "s' = s\<lparr>callers := callers s @ [x]\<rparr>"
      "pc x = AtLock \<or> (\<exists>e. pc x = Done None (Raised e))"
  | t c where "a = Register t" "at_pc s t = Some AtLock"
      "(key_of s t, c) \<in> set (in_flight_calls s)" "c < length (heap s)" "\<not> event (heap s ! c)"
      "s' = goto t (Waiting c) (s\<lparr>stats := (stats s)\<lparr>hits := hits (stats s) + 1\<rparr>\<rparr>)"
  | t where "a = Register t" "at_pc s t = Some AtLock"
      "\<And>c. (key_of s t, c) \<notin> set (in_flight_calls s)"
      "s' = goto t (Leading (length (heap s)))
            (s\<lparr>stats := (stats s)\<lparr>misses := misses (stats s) + 1,
                                   in_flight := in_flight (stats s) + 1\<rparr>,
               heap := heap s @ [SyncCall],
               in_flight_calls := in_flight_calls s @ [(key_of s t, length (heap s))]\<rparr>)"
  | t c v where "a = Work t (Inr v)" "at_pc s t = Some (Leading c)" "c < length (heap s)" "\<And>u. leads s u c = (u = t)"
      "\<not> event (heap s ! c)" "sets (heap s ! c) = 0" "runs (heap s ! c) = 0"
      "result (heap s ! c) = Unset"
      "s' = goto t (Finishing c None)
             (s\<lparr>heap := (heap s)[c := (heap s ! c)\<lparr>runs := runs (heap s ! c) + 1,
                                                   result := Success v\<rparr>]\<rparr>)"
  | t c e where "a = Work t (Inl e)" "caught e" "at_pc s t = Some (Leading c)"
      "c < length (heap s)" "\<And>u. leads s u c = (u = t)"
      "\<not> event (heap s ! c)" "sets (heap s ! c) = 0" "runs (heap s ! c) = 0"
      "result (heap s ! c) = Unset"
      "s' = goto t (Finishing c None)
             (s\<lparr>heap := (heap s)[c := (heap s ! c)\<lparr>runs := runs (heap s ! c) + 1,
                                                   result := Failure e\<rparr>],
                stats := (stats s)\<lparr>errors := errors (stats s) + 1\<rparr>\<rparr>)"
  | t c e where "a = Work t (Inl e)" "\<not> caught e" "at_pc s t = Some (Leading c)"
      "c < length (heap s)" "\<And>u. leads s u c = (u = t)"
      "\<not> event (heap s ! c)" "sets (heap s ! c) = 0" "runs (heap s ! c) = 0"
      "result (heap s ! c) = Unset"
      "s' = goto t (Finishing c (Some e))
             (s\<lparr>heap := (heap s)[c := (heap s ! c)\<lparr>runs := runs (heap s ! c) + 1\<rparr>]\<rparr>)"
  | t c x where "a = Cleanup t" "at_pc s t = Some (Finishing c x)" "c < length (heap s)"
      "\<And>u. leads s u c = (u = t)" "\<not> event (heap s ! c)" "sets (heap s ! c) = 0" "runs (heap s ! c) = 1"
      "s' = goto t (Signalling c x)
             (s\<lparr>in_flight_calls := AList.delete (key_of s t) (in_flight_calls s),
                stats := (stats s)\<lparr>in_flight := in_flight (stats s) - 1\<rparr>\<rparr>)"
  | t c x where "a = SetEvent t" "at_pc s t = Some (Signalling c x)" "c < length (heap s)"
      "\<And>u. leads s u c = (u = t)" "\<not> event (heap s ! c)" "sets (heap s ! c) = 0" "runs (heap s ! c) = 1"
      "\<And>k. (k, c) \<notin> set (in_flight_calls s)"
      "s' = goto t (case x of None \<Rightarrow> Waiting c | Some e \<Rightarrow> Done (Some c) (Raised e))
             (s\<lparr>heap := (heap s)[c := (heap s ! c)\<lparr>event := True,
                                                   sets := sets (heap s ! c) + 1\<rparr>]\<rparr>)"
  | t c where "a = Return t" "at_pc s t = Some (Waiting c)" "event (heap s ! c)"
      "c < length (heap s)"
      "s' = goto t (Done (Some c) (unwrap (result (heap s ! c)))) s"
  | "a = ResetStats" "s' = s\<lparr>stats := Stats\<rparr>"
  | k where "a = Forget k" "s' = s\<lparr>in_flight_calls := AList.delete k (in_flight_calls s)\<rparr>"
  | "a = ForgetAll" "s' = s\<lparr>in_flight_calls := []\<rparr>"
  using assms(1)
proof (cases rule: step_cases)
  case (RegisterF t c)
  then show ?thesis
    using that(2)[of t c] assms(2) map_of_SomeD[of "in_flight_calls s" "key_of s t" c]
      inv_entry_ref[of s "key_of s t" c] inv_entry_event[of s "key_of s t" c]
    by blast
next
  case (RegisterL t)
  then show ?thesis using that(3)[of t] absent_key by fast
next
  case (WorkOk t c v)
  moreover have "\<And>u. leads s u c = (u = t)"
    using inv_unique[OF assms(2), of _ c t] WorkOk(2) by auto
  ultimately show ?thesis
    using that(4)[of t v c] assms(2) inv_at_ref[of s t "Leading c" c] inv_leader[of s t c]
    by simp
next
  case (WorkErr t c e)
  moreover have "\<And>u. leads s u c = (u = t)"
    using inv_unique[OF assms(2), of _ c t] WorkErr(3) by auto
  ultimately show ?thesis
    using that(5)[of t e c] assms(2) inv_at_ref[of s t "Leading c" c] inv_leader[of s t c]
    by simp
next
  case (WorkBase t c e)
  moreover have "\<And>u. leads s u c = (u = t)"
    using inv_unique[OF assms(2), of _ c t] WorkBase(3) by auto
  ultimately show ?thesis
    using that(6)[of t e c] assms(2) inv_at_ref[of s t "Leading c" c] inv_leader[of s t c]
    by simp
next
  case (Cleanup t c x)
  moreover have "\<And>u. leads s u c = (u = t)"
    using inv_unique[OF assms(2), of _ c t] Cleanup(2) by auto
  ultimately show ?thesis
    using that(7)[of t c x] assms(2) inv_at_ref[of s t "Finishing c x" c] inv_leader[of s t c]
    by simp
next
  case (SetEvent t c x)
  moreover have "\<And>k. (k, c) \<notin> set (in_flight_calls s)"
    using inv_entry[OF assms(2), of _ c t] SetEvent(2) by auto
  moreover have "\<And>u. leads s u c = (u = t)"
    using inv_unique[OF assms(2), of _ c t] SetEvent(2) by auto
  ultimately show ?thesis
    using that(8)[of t c x] assms(2) inv_at_ref[of s t "Signalling c x" c] inv_leader[of s t c]
    by simp
next
  case (Return t c)
  then show ?thesis
    using that(9)[of t c] assms(2) inv_at_ref[of s t "Waiting c" c] by simp
qed (use that in blast)+

lemma refs_step:
  assumes "step a s = Some s'" "coherent s"
  shows "refs_ok s'"
  using assms
proof (cases rule: inv_cases)
  case (RegisterL t)
  then show ?thesis
    using assms(2) by (auto simp: refs_ok_def less_Suc_eq dest: inv_refs)
qed (use assms(2) in \<open>auto simp: refs_ok_def dest: inv_refs split: option.splits\<close>)

lemma registry_step:
  assumes "step a s = Some s'" "coherent s"
  shows "registry_ok s'"
  using assms
proof (cases rule: inv_cases)
  case (RegisterL t)
  then show ?thesis
    using assms(2)
    by (auto simp: registry_ok_def less_Suc_eq nth_append SyncCall_def image_iff
        dest: inv_entry_ref inv_entry_event inv_distinct)
next
  case (Cleanup t c x)
  then show ?thesis
    using assms(2)
    by (auto simp: registry_ok_def set_delete distinct_delete
        dest: inv_entry_ref inv_entry_event inv_distinct)
next
  case (Forget k)
  then show ?thesis
    using assms(2)
    by (auto simp: registry_ok_def set_delete distinct_delete
        dest: inv_entry_ref inv_entry_event inv_distinct)
qed (use assms(2) in \<open>auto simp: registry_ok_def nth_list_update
       dest: inv_entry_ref inv_entry_event inv_distinct\<close>)

lemma one_leader_step:
  assumes "step a s = Some s'" "coherent s"
  shows "one_leader s'"
  using assms
proof (cases rule: inv_cases)
qed (use assms(2) in \<open>auto simp: one_leader_def dest: inv_unique split: if_splits option.splits\<close>)

lemma inv_fresh_entry [simp]: "coherent s \<Longrightarrow> (k, length (heap s)) \<notin> set (in_flight_calls s)"
  using inv_entry_ref by blast

lemma inv_entry_at:
  "coherent s \<Longrightarrow> (k, c) \<in> set (in_flight_calls s) \<Longrightarrow> at_pc s t = Some p \<Longrightarrow>
     active p = Some c \<Longrightarrow> key_of s t = k \<and> (\<forall>x. p \<noteq> Signalling c x)"
  using inv_entry[of s k c t] by auto

lemma inv_leader_at:
  "coherent s \<Longrightarrow> at_pc s t = Some p \<Longrightarrow> active p = Some c \<Longrightarrow>
     \<not> event (heap s ! c) \<and> sets (heap s ! c) = 0 \<and>
     runs (heap s ! c) = (if p = Leading c then 0 else 1) \<and>
     (p = Leading c \<longrightarrow> result (heap s ! c) = Unset)"
  using inv_leader[of s t c] by auto

lemma leader_step:
  assumes "step a s = Some s'" "coherent s"
  shows "leader_ok s'"
  using assms
proof (cases rule: inv_cases)
  case (Invoke k m n g x)
  then show ?thesis
    using inv_leader[OF assms(2)]
    by (auto simp: leader_ok_def at_pc_new leads_def split: option.splits)
next
  case (RegisterL t)
  then show ?thesis
    using inv_leader[OF assms(2)] inv_leads_ref[OF assms(2)] assms(2)
    by (auto simp: leader_ok_def nth_append SyncCall_def)
next
  case (SetEvent t c x)
  then show ?thesis
    using inv_leader[OF assms(2)]
    by (auto simp: leader_ok_def nth_list_update split: option.splits)
qed (use inv_leader[OF assms(2)] in \<open>auto simp: leader_ok_def nth_list_update\<close>)

lemma entry_step:
  assumes "step a s = Some s'" "coherent s"
  shows "entry_ok s'"
  using assms
proof (cases rule: inv_cases)
  case (Invoke k m n g x)
  then show ?thesis
    using inv_entry[OF assms(2)]
    by (auto simp: entry_ok_def at_pc_new leads_key_new leads_def split: option.splits)
next
  case (RegisterL t)
  then show ?thesis
    using inv_entry[OF assms(2)] inv_entry_ref[OF assms(2)] assms(2)
    by (auto simp: entry_ok_def)
next
  case (Cleanup t c x)
  then show ?thesis
    using inv_entry[OF assms(2)] inv_entry_at[OF assms(2)]
    by (fastforce simp: entry_ok_def set_delete)
next
  case (Forget k)
  then show ?thesis
    using inv_entry[OF assms(2)]
    by (auto simp: entry_ok_def set_delete)
next
  case (SetEvent t c x)
  then show ?thesis
    using inv_entry[OF assms(2)]
    by (auto simp: entry_ok_def split: option.splits)
qed (use inv_entry[OF assms(2)] in \<open>auto simp: entry_ok_def\<close>)

lemma done_stays:
  assumes "step a s = Some s'" "at_pc s t = Some (Done c out)"
  shows "at_pc s' t = Some (Done c out)"
  using assms(1)
proof (cases rule: step_cases)
  case (Invoke k m n g x)
  have "t < length (callers s)"
    using assms(2) by (auto simp: at_pc_def split: if_splits)
  then show ?thesis using Invoke assms(2) by (simp add: at_pc_new)
next
  case (SetEvent t c x)
  then show ?thesis using assms(2) by (auto split: option.splits)
qed (use assms(2) in auto)

lemma done_never_works:
  "run as s = Some s' \<Longrightarrow> at_pc s t = Some (Done c out) \<Longrightarrow>
     at_pc s' t = Some (Done c out) \<and> Work t r \<notin> set as"
proof (induction as arbitrary: s)
  case Nil
  then show ?case by simp
next
  case (Cons a as)
  then obtain s1 where s1: "step a s = Some s1" "run as s1 = Some s'"
    by (auto split: option.splits)
  have "a \<noteq> Work t r" using s1(1) Cons.prems(2) by auto
  then show ?case using Cons.IH[OF s1(2) done_stays[OF s1(1) Cons.prems(2)]] by simp
qed

lemma inv_done_at:
  "coherent s \<Longrightarrow> at_pc s t = Some (Done (Some c) out) \<Longrightarrow> event (heap s ! c)"
  using inv_done by blast

lemma inv_unique_at:
  "coherent s \<Longrightarrow> at_pc s t = Some p \<Longrightarrow> active p = Some c \<Longrightarrow>
     at_pc s u = Some q \<Longrightarrow> active q = Some c \<Longrightarrow> t = u"
  using inv_unique[of s t c u] by simp

lemma inv_pending_F:
  "coherent s \<Longrightarrow> at_pc s t = Some (Finishing c (Some e)) \<Longrightarrow>
     \<not> caught e \<and> result (heap s ! c) = Unset"
  using inv_pending by blast

lemma inv_pending_S:
  "coherent s \<Longrightarrow> at_pc s t = Some (Signalling c (Some e)) \<Longrightarrow>
     \<not> caught e \<and> result (heap s ! c) = Unset"
  using inv_pending by blast

lemma done_step:
  assumes "step a s = Some s'" "coherent s"
  shows "done_ok s'"
  using assms
proof (cases rule: inv_cases)
  case (Invoke k m n g x)
  then show ?thesis
    using inv_done[OF assms(2)]
    by (auto simp: done_ok_def at_pc_new split: if_splits)
next
  case (RegisterL t)
  then show ?thesis
    using inv_done[OF assms(2)] inv_at_ref[OF assms(2)]
    by (auto simp: done_ok_def nth_append)
next
  case (SetEvent t c x)
  then show ?thesis
    using inv_done[OF assms(2)] inv_pending_S[OF assms(2), of t c]
    by (auto simp: done_ok_def nth_list_update split: option.splits)
qed (use inv_done[OF assms(2)] in \<open>auto simp: done_ok_def nth_list_update\<close>)

lemma pending_step:
  assumes "step a s = Some s'" "coherent s"
  shows "pending_ok s'"
proof -
  note P = inv_pending_F[OF assms(2)] inv_pending_S[OF assms(2)]
  show ?thesis
    using assms
  proof (cases rule: inv_cases)
    case (Invoke k m n g x)
    then show ?thesis
      using P by (auto simp: pending_ok_def at_pc_new split: if_splits)
  next
    case (RegisterL t)
    then show ?thesis
      using P inv_at_ref[OF assms(2)]
      by (auto simp: pending_ok_def nth_append)
  next
    case (SetEvent t c x)
    then show ?thesis
      using P by (auto simp: pending_ok_def nth_list_update split: option.splits)
  qed (use P in \<open>auto simp: pending_ok_def nth_list_update dest: inv_unique_at[OF assms(2)]\<close>)
qed

lemma signalled_step:
  assumes "step a s = Some s'" "coherent s"
  shows "signalled_ok s'"
  using assms
proof (cases rule: inv_cases)
  case (RegisterL t)
  then show ?thesis
    using inv_signalled[OF assms(2)]
    by (auto simp: signalled_ok_def nth_append SyncCall_def less_Suc_eq)
qed (use inv_signalled[OF assms(2)] in \<open>auto simp: signalled_ok_def nth_list_update\<close>)


lemma led_step:
  assumes "step a s = Some s'" "coherent s"
  shows "led_ok s'"
proof -
  note L = inv_led[OF assms(2)]
  show ?thesis
    using assms
  proof (cases rule: inv_cases)
    case (Invoke k m n g x)
    have "\<exists>t. leads s' t c" if h: "c < length (heap s)" "\<not> event (heap s ! c)" for c
    proof -
      obtain t where t: "leads s t c" using L h by blast
      then have "t \<noteq> length (callers s)" by (auto simp: leads_def at_pc_def)
      then show ?thesis using t Invoke by auto
    qed
    then show ?thesis using Invoke by (simp add: led_ok_def)
  next
    case (RegisterF t c)
    have "\<exists>u. leads s' u d" if h: "d < length (heap s)" "\<not> event (heap s ! d)" for d
    proof -
      obtain u where u: "leads s u d" using L h by blast
      then have "u \<noteq> t" using RegisterF(2) by auto
      then show ?thesis using u RegisterF by auto
    qed
    then show ?thesis using RegisterF by (simp add: led_ok_def)
  next
    case (RegisterL t)
    have "\<exists>u. leads s' u d" if h: "d < length (heap s)" "\<not> event (heap s ! d)" for d
    proof -
      obtain u where u: "leads s u d" using L h by blast
      then have "u \<noteq> t" using RegisterL(2) by auto
      then show ?thesis using u RegisterL by auto
    qed
    moreover have "leads s' t (length (heap s))" using RegisterL by simp
    ultimately show ?thesis
      using RegisterL by (auto simp: led_ok_def less_Suc_eq nth_append)
  next
    case (WorkOk t c v)
    have "\<exists>u. leads s' u d" if h: "d < length (heap s)" "\<not> event (heap s ! d)" for d
    proof -
      obtain u where u: "leads s u d" using L h by blast
      show ?thesis using u WorkOk by (cases "u = t") auto
    qed
    then show ?thesis using WorkOk by (auto simp: led_ok_def nth_list_update split: if_splits)
  next
    case (WorkErr t c e)
    have "\<exists>u. leads s' u d" if h: "d < length (heap s)" "\<not> event (heap s ! d)" for d
    proof -
      obtain u where u: "leads s u d" using L h by blast
      show ?thesis using u WorkErr by (cases "u = t") auto
    qed
    then show ?thesis using WorkErr by (auto simp: led_ok_def nth_list_update split: if_splits)
  next
    case (WorkBase t c e)
    have "\<exists>u. leads s' u d" if h: "d < length (heap s)" "\<not> event (heap s ! d)" for d
    proof -
      obtain u where u: "leads s u d" using L h by blast
      show ?thesis using u WorkBase by (cases "u = t") auto
    qed
    then show ?thesis using WorkBase by (auto simp: led_ok_def nth_list_update split: if_splits)
  next
    case (Cleanup t c x)
    have "\<exists>u. leads s' u d" if h: "d < length (heap s)" "\<not> event (heap s ! d)" for d
    proof -
      obtain u where u: "leads s u d" using L h by blast
      show ?thesis using u Cleanup by (cases "u = t") auto
    qed
    then show ?thesis using Cleanup by (auto simp: led_ok_def)
  next
    case (SetEvent t c x)
    have "\<exists>u. leads s' u d" if h: "d < length (heap s)" "\<not> event (heap s ! d)" "d \<noteq> c" for d
    proof -
      obtain u where u: "leads s u d" using L h by blast
      then have "u \<noteq> t" using SetEvent(2) h(3) by auto
      then show ?thesis using u SetEvent by auto
    qed
    then show ?thesis using SetEvent by (auto simp: led_ok_def nth_list_update split: if_splits)
  next
    case (Return t c)
    have "\<exists>u. leads s' u d" if h: "d < length (heap s)" "\<not> event (heap s ! d)" for d
    proof -
      obtain u where u: "leads s u d" using L h by blast
      then have "u \<noteq> t" using Return(2) by auto
      then show ?thesis using u Return by auto
    qed
    then show ?thesis using Return by (auto simp: led_ok_def)
  qed (use L in \<open>auto simp: led_ok_def\<close>)
qed

lemma coherent_step:
  assumes "step a s = Some s'" "coherent s"
  shows "coherent s'"
  unfolding coherent_def
  using refs_step[OF assms] registry_step[OF assms] one_leader_step[OF assms]
    leader_step[OF assms] entry_step[OF assms] done_step[OF assms] pending_step[OF assms]
    signalled_step[OF assms] led_step[OF assms]
  by simp

lemma coherent_run: "run as s = Some s' \<Longrightarrow> coherent s \<Longrightarrow> coherent s'"
proof (induction as arbitrary: s)
  case Nil
  then show ?case by simp
next
  case (Cons a as)
  then show ?case by (auto split: option.splits dest: coherent_step)
qed

lemma coherent_reachable: "run as SharedCall = Some s \<Longrightarrow> coherent s"
  using coherent_run inv_init by blast

lemma heap_grows:
  assumes "step a s = Some s'"
  shows "length (heap s) \<le> length (heap s')"
  using assms by (cases rule: step_cases) auto

lemma nth_update_at: "c < length xs \<Longrightarrow> xs[d := x] ! c = (if d = c then x else xs ! c)"
  by (cases "d = c") auto

lemma event_stays:
  assumes "step a s = Some s'" "c < length (heap s)" "event (heap s ! c)"
  shows "event (heap s' ! c)"
  using assms(1)
  by (cases rule: step_cases) (use assms(2,3) in \<open>auto simp: nth_append nth_update_at\<close>)

lemma event_stays_run:
  "run as s = Some s' \<Longrightarrow> c < length (heap s) \<Longrightarrow> event (heap s ! c) \<Longrightarrow>
     c < length (heap s') \<and> event (heap s' ! c)"
proof (induction as arbitrary: s)
  case Nil
  then show ?case by simp
next
  case (Cons a as)
  then obtain s1 where s1: "step a s = Some s1" "run as s1 = Some s'"
    by (auto split: option.splits)
  have "c < length (heap s1)" using heap_grows[OF s1(1)] Cons.prems(2) by simp
  then show ?case using Cons.IH[OF s1(2)] event_stays[OF s1(1) Cons.prems(2,3)] by simp
qed

lemma forget_fields [simp]:
  "heap (forget k s) = heap s"
  "callers (forget k s) = callers s"
  "stats (forget k s) = stats s"
  "in_flight_calls (forget k s) = AList.delete k (in_flight_calls s)"
  "at_pc (forget k s) t = at_pc s t"
  "key_of (forget k s) t = key_of s t"
  by (simp_all add: forget_def at_pc_def key_of_def)

lemma forget_goto: "forget k (goto t p s) = goto t p (forget k s)"
  by (simp add: forget_def goto_def)

lemma forget_commutes_step:
  assumes "attached_step a"
  shows "step a (forget k s) = map_option (forget k) (step a s)"
proof (cases a)
  case (Work t r)
  then show ?thesis
    by (cases r) (auto simp: work_def Let_def forget_def goto_def at_pc_def
        split: option.splits pc.splits)
next
  case (Cleanup t)
  then show ?thesis
    by (auto simp: cleanup_def forget_def goto_def at_pc_def delete_twist
        split: option.splits pc.splits)
next
  case (SetEvent t)
  then show ?thesis
    by (auto simp: set_event_def forget_def goto_def at_pc_def split: option.splits pc.splits)
next
  case (Return t)
  then show ?thesis
    by (auto simp: forget_def goto_def at_pc_def split: option.splits pc.splits)
qed (use assms in simp_all)

lemma forget_commutes_run:
  "list_all attached_step as \<Longrightarrow> run as (forget k s) = map_option (forget k) (run as s)"
proof (induction as arbitrary: s)
  case Nil
  then show ?case by simp
next
  case (Cons a as)
  then show ?case
    by (cases "step a s") (simp_all add: forget_commutes_step)
qed


lemma run_append:
  "run (as @ bs) s = (case run as s of None \<Rightarrow> None | Some s' \<Rightarrow> run bs s')"
  by (induction as arbitrary: s) (auto split: option.splits)

lemma attached_old [simp]: "\<not> attached_to s (length (callers s)) c"
  by (simp add: attached_to_def at_pc_def)

lemma leads_old [simp]: "\<not> leads s (length (callers s)) c"
  by (simp add: leads_def at_pc_def)

lemma attached_stable:
  assumes "step a s = Some s'" "attached_to s t c"
  shows "attached_to s' t c"
  using assms(1)
proof (cases rule: step_cases)
  case (SetEvent u d x)
  then show ?thesis using assms(2) by (cases x; cases "u = t") auto
qed (use assms(2) in \<open>auto split: if_splits\<close>)

lemma attached_stable_run:
  "run as s = Some s' \<Longrightarrow> attached_to s t c \<Longrightarrow> attached_to s' t c"
proof (induction as arbitrary: s)
  case Nil
  then show ?case by simp
next
  case (Cons a as)
  then show ?case by (auto split: option.splits dest: attached_stable)
qed

lemma attached_step_heap:
  assumes "step a s = Some s'" "attached_step a"
  shows "length (heap s') = length (heap s)"
  using assms by (cases rule: step_cases) auto

lemma attached_run_heap:
  "run as s = Some s' \<Longrightarrow> list_all attached_step as \<Longrightarrow> length (heap s') = length (heap s)"
proof (induction as arbitrary: s)
  case Nil
  then show ?case by simp
next
  case (Cons a as)
  then show ?case by (auto split: option.splits dest: attached_step_heap)
qed

lemma all_done_at: "all_done s \<Longrightarrow> at_pc s t = Some p \<Longrightarrow> finished p"
  by (auto simp: all_done_def at_pc_def list_all_length split: if_splits)

lemma done_ran:
  assumes "coherent s" "all_done s" "attached_to s t c"
  shows "runs (heap s ! c) = 1 \<and> sets (heap s ! c) = 1 \<and> event (heap s ! c)"
proof -
  obtain p where p: "at_pc s t = Some p" "attached p = Some c"
    using assms(3) by (auto simp: attached_to_def split: option.splits)
  then obtain out where "p = Done (Some c) out"
    using all_done_at[OF assms(2) p(1)] by (cases p) auto
  then have "event (heap s ! c)" using inv_done[OF assms(1)] p(1) by blast
  then show ?thesis using inv_signalled[OF assms(1)] inv_refs[OF assms(1,3)] by simp
qed


lemma sum_two: "length xs = 2 \<Longrightarrow> sum_list (map f xs) = f (xs ! 0) + f (xs ! 1)"
  by (cases xs; cases "tl xs") auto

subsection \<open>The counters\<close>

lemma filter_update_count:
  "i < length xs \<Longrightarrow>
     int (length (filter Q (xs[i := x]))) =
     int (length (filter Q xs)) - of_bool (Q (xs ! i)) + of_bool (Q x)"
proof (induction xs arbitrary: i)
  case Nil
  then show ?case by simp
next
  case (Cons y ys)
  then show ?case by (cases i) auto
qed

lemma count_pc_upd [simp]:
  "count_pc P (s\<lparr>stats := st\<rparr>) = count_pc P s"
  "count_pc P (s\<lparr>heap := h\<rparr>) = count_pc P s"
  "count_pc P (s\<lparr>in_flight_calls := r\<rparr>) = count_pc P s"
  by (simp_all add: count_pc_def)

lemma count_pc_goto:
  "at_pc s t = Some q \<Longrightarrow>
     int (count_pc P (goto t p s)) = int (count_pc P s) - of_bool (P q) + of_bool (P p)"
  using filter_update_count[of t "callers s" "\<lambda>c. P (pc c)" "(callers s ! t)\<lparr>pc := p\<rparr>"]
  by (auto simp: count_pc_def goto_def at_pc_def split: if_splits)

lemma count_pc_new:
  "count_pc P (s\<lparr>callers := callers s @ [x]\<rparr>) = count_pc P s + of_bool (P (pc x))"
  by (simp add: count_pc_def)

lemma failures_upd [simp]:
  "failures (s\<lparr>stats := st\<rparr>) = failures s"
  "failures (s\<lparr>in_flight_calls := r\<rparr>) = failures s"
  "failures (goto t p s) = failures s"
  by (simp_all add: failures_def)

lemma failures_heap:
  "c < length (heap s) \<Longrightarrow>
     int (failures (s\<lparr>heap := (heap s)[c := h]\<rparr>)) =
     int (failures s) - of_bool (failed (result (heap s ! c))) + of_bool (failed (result h))"
  using filter_update_count[of c "heap s" "\<lambda>h. failed (result h)" h]
  by (simp add: failures_def)

lemma ledger_step:
  assumes "step a s = Some s'" "coherent s" "\<not> is_reset a" "ledger s"
  shows "ledger s'"
  using assms(1,2)
proof (cases rule: inv_cases)
  case (Invoke k m n g x)
  then show ?thesis
    using assms(4) by (auto simp: ledger_def count_pc_new failures_def registered_def)
next
  case (RegisterF t c)
  then show ?thesis
    using assms(4) by (simp add: ledger_def count_pc_goto registered_def)
next
  case (RegisterL t)
  then show ?thesis
    using assms(4) by (simp add: ledger_def count_pc_goto registered_def failures_def SyncCall_def)
next
  case (WorkOk t c v)
  then show ?thesis
    using assms(4) by (simp add: ledger_def count_pc_goto registered_def failures_heap)
next
  case (WorkErr t c e)
  then show ?thesis
    using assms(4) by (simp add: ledger_def count_pc_goto registered_def failures_heap)
next
  case (WorkBase t c e)
  then show ?thesis
    using assms(4) by (simp add: ledger_def count_pc_goto registered_def failures_heap)
next
  case (Cleanup t c x)
  then show ?thesis
    using assms(4) by (simp add: ledger_def count_pc_goto registered_def)
next
  case (SetEvent t c x)
  then show ?thesis
    using assms(4) by (cases x) (simp_all add: ledger_def count_pc_goto registered_def failures_heap)
next
  case (Return t c)
  then show ?thesis
    using assms(4) by (simp add: ledger_def count_pc_goto registered_def)
next
  case Reset
  then show ?thesis using assms(3) by simp
next
  case (Forget k)
  then show ?thesis using assms(4) by (simp add: ledger_def failures_def)
next
  case ForgetAll
  then show ?thesis using assms(4) by (simp add: ledger_def failures_def)
qed

lemma ledger_init: "ledger SharedCall"
  by (simp add: ledger_def SharedCall_def Stats_def count_pc_def failures_def)

lemma ledger_run:
  "run as s = Some s' \<Longrightarrow> reset_free as \<Longrightarrow> coherent s \<Longrightarrow> ledger s \<Longrightarrow> ledger s'"
proof (induction as arbitrary: s)
  case Nil
  then show ?case by simp
next
  case (Cons a as)
  then obtain s1 where s1: "step a s = Some s1" "run as s1 = Some s'"
    by (auto split: option.splits)
  have "\<not> is_reset a" "reset_free as" using Cons.prems(2) by (simp_all add: reset_free_def)
  then show ?case
    using Cons.IH[OF s1(2) _ coherent_step[OF s1(1) Cons.prems(3)]]
      ledger_step[OF s1(1) Cons.prems(3) _ Cons.prems(4)] by blast
qed


lemma presentD:
  "present s \<Longrightarrow> at_pc s t = Some p \<Longrightarrow> flying p \<Longrightarrow> attached p = Some c \<Longrightarrow>
     (key_of s t, c) \<in> set (in_flight_calls s)"
  by (simp add: present_def)

lemma same_key_same_call:
  "coherent s \<Longrightarrow> (k, c) \<in> set (in_flight_calls s) \<Longrightarrow> (k, d) \<in> set (in_flight_calls s) \<Longrightarrow> c = d"
  using inv_distinct[of s] by (meson eq_key_imp_eq_value)

lemma present_step:
  assumes "step a s = Some s'" "coherent s" "\<not> is_forget a" "present s"
  shows "present s'"
  using assms(1,2)
proof (cases rule: inv_cases)
  case (Invoke k m n g x)
  have "(key_of s' t, c) \<in> set (in_flight_calls s')"
    if "at_pc s' t = Some p" "flying p" "attached p = Some c" for t p c
  proof -
    have "t \<noteq> length (callers s)" using that Invoke by (auto simp: at_pc_new)
    then have "at_pc s t = Some p" using that(1) Invoke by (simp add: at_pc_new)
    then show ?thesis
      using presentD[OF assms(4) _ that(2,3)] Invoke by (simp add: key_of_new)
  qed
  then show ?thesis by (simp add: present_def)
next
  case (Cleanup t c x)
  have "(key_of s' u, d) \<in> set (in_flight_calls s')"
    if h: "at_pc s' u = Some p" "flying p" "attached p = Some d" for u p d
  proof -
    have ut: "u \<noteq> t" using h Cleanup by auto
    then have at: "at_pc s u = Some p" using h(1) Cleanup by simp
    then have e: "(key_of s u, d) \<in> set (in_flight_calls s)"
      using presentD[OF assms(4) _ h(2,3)] by simp
    have et: "(key_of s t, c) \<in> set (in_flight_calls s)"
      using presentD[OF assms(4) Cleanup(2)] by simp
    have "key_of s u \<noteq> key_of s t"
    proof
      assume "key_of s u = key_of s t"
      then have "d = c" using same_key_same_call[OF assms(2) e] et by simp
      moreover have "active p = Some d" using h(2,3) by (cases p) auto
      ultimately show False
        using inv_unique_at[OF assms(2) at _ Cleanup(2)] ut by simp
    qed
    then show ?thesis using e Cleanup by (simp add: set_delete)
  qed
  then show ?thesis by (simp add: present_def)
next
  case (Forget k)
  then show ?thesis using assms(3) by simp
next
  case ForgetAll
  then show ?thesis using assms(3) by simp
next
  case (SetEvent t c x)
  then show ?thesis
    using presentD[OF assms(4)] by (cases x) (auto simp: present_def)
qed (use presentD[OF assms(4)] in \<open>auto simp: present_def\<close>)

lemma present_init: "present SharedCall"
  by (simp add: present_def SharedCall_def at_pc_def)

lemma present_run:
  "run as s = Some s' \<Longrightarrow> forget_free as \<Longrightarrow> coherent s \<Longrightarrow> present s \<Longrightarrow> present s'"
proof (induction as arbitrary: s)
  case Nil
  then show ?case by simp
next
  case (Cons a as)
  then obtain s1 where s1: "step a s = Some s1" "run as s1 = Some s'"
    by (auto split: option.splits)
  have "\<not> is_forget a" "forget_free as" using Cons.prems(2) by (simp_all add: forget_free_def)
  then show ?case
    using Cons.IH[OF s1(2) _ coherent_step[OF s1(1) Cons.prems(3)]]
      present_step[OF s1(1) Cons.prems(3) _ Cons.prems(4)] by blast
qed

lemma length_delete_present:
  "distinct (map fst al) \<Longrightarrow> (k, c) \<in> set al \<Longrightarrow> int (length (AList.delete k al)) = int (length al) - 1"
proof (induction al)
  case Nil
  then show ?case by simp
next
  case (Cons p ps)
  show ?case
  proof (cases "fst p = k")
    case True
    then have "k \<notin> fst ` set ps" using Cons.prems(1) by auto
    then have "AList.delete k ps = ps" by (simp add: delete_id)
    then show ?thesis using True by simp
  next
    case False
    then show ?thesis using Cons by auto
  qed
qed

lemma balance_step:
  assumes "step a s = Some s'" "coherent s" "\<not> is_forget a" "\<not> is_reset a" "present s"
    "in_flight (stats s) = int (length (in_flight_calls s))"
  shows "in_flight (stats s') = int (length (in_flight_calls s'))"
  using assms(1,2)
proof (cases rule: inv_cases)
  case (Cleanup t c x)
  have "(key_of s t, c) \<in> set (in_flight_calls s)"
    using presentD[OF assms(5) Cleanup(2)] by simp
  then show ?thesis
    using Cleanup assms(6) length_delete_present[OF inv_distinct[OF assms(2)]] by simp
qed (use assms(3,4,6) in auto)

lemma balance_run:
  "run as s = Some s' \<Longrightarrow> forget_free as \<Longrightarrow> reset_free as \<Longrightarrow> coherent s \<Longrightarrow> present s \<Longrightarrow>
     in_flight (stats s) = int (length (in_flight_calls s)) \<Longrightarrow>
     in_flight (stats s') = int (length (in_flight_calls s'))"
proof (induction as arbitrary: s)
  case Nil
  then show ?case by simp
next
  case (Cons a as)
  then obtain s1 where s1: "step a s = Some s1" "run as s1 = Some s'"
    by (auto split: option.splits)
  have a: "\<not> is_forget a" "forget_free as" "\<not> is_reset a" "reset_free as"
    using Cons.prems(2,3) by (simp_all add: forget_free_def reset_free_def)
  show ?case
    using Cons.IH[OF s1(2) a(2,4) coherent_step[OF s1(1) Cons.prems(4)]
        present_step[OF s1(1) Cons.prems(4) a(1) Cons.prems(5)]
        balance_step[OF s1(1) Cons.prems(4) a(1,3) Cons.prems(5,6)]] .
qed

lemma ran_stable:
  assumes "step a s = Some s'" "coherent s" "c < length (heap s)" "runs (heap s ! c) = 1"
  shows "runs (heap s' ! c) = 1 \<and> result (heap s' ! c) = result (heap s ! c)"
  using assms(1,2)
  by (cases rule: inv_cases) (use assms(3,4) in \<open>auto simp: nth_append nth_update_at\<close>)

lemma ran_stable_run:
  "run as s = Some s' \<Longrightarrow> coherent s \<Longrightarrow> c < length (heap s) \<Longrightarrow> runs (heap s ! c) = 1 \<Longrightarrow>
     c < length (heap s') \<and> runs (heap s' ! c) = 1 \<and> result (heap s' ! c) = result (heap s ! c)"
proof (induction as arbitrary: s)
  case Nil
  then show ?case by simp
next
  case (Cons a as)
  then obtain s1 where s1: "step a s = Some s1" "run as s1 = Some s'"
    by (auto split: option.splits)
  have c1: "c < length (heap s1)" using heap_grows[OF s1(1)] Cons.prems(3) by simp
  show ?case
    using Cons.IH[OF s1(2) coherent_step[OF s1(1) Cons.prems(2)] c1]
      ran_stable[OF s1(1) Cons.prems(2,3,4)] by simp
qed

subsection \<open>Calls that overlap on one key\<close>

lemma keyed_step:
  assumes "step a s = Some s'" "keyed K s" "invokes_key K a"
  shows "keyed K s'"
  using assms(1)
proof (cases rule: step_cases)
  case (Invoke k m n g x)
  then have s': "s' = s\<lparr>callers := callers s @ [\<lparr>key = K, pc = AtLock\<rparr>]\<rparr>"
    using assms(1,3) by auto
  have "key_of s' t = K \<and> (finished p \<longrightarrow> attached p \<noteq> None)" if "at_pc s' t = Some p" for t p
  proof (cases "t = length (callers s)")
    case True
    then show ?thesis using that s' by (simp add: at_pc_new key_of_def)
  next
    case False
    then have "at_pc s t = Some p" using that s' by (simp add: at_pc_new)
    then show ?thesis using assms(2) s' by (simp add: keyed_def key_of_new)
  qed
  then show ?thesis by (simp add: keyed_def)
next
  case (SetEvent t c x)
  then show ?thesis using assms(2) by (cases x) (auto simp: keyed_def)
qed (use assms(2) in \<open>auto simp: keyed_def\<close>)

lemma keyed_run:
  "run as s = Some s' \<Longrightarrow> keyed K s \<Longrightarrow> same_key K as \<Longrightarrow> keyed K s'"
proof (induction as arbitrary: s)
  case Nil
  then show ?case by simp
next
  case (Cons a as)
  then show ?case
    by (auto simp: same_key_def split: option.splits dest: keyed_step)
qed

lemma keyed_init: "keyed K SharedCall"
  by (simp add: keyed_def SharedCall_def at_pc_def)

lemma gathering_step:
  assumes "step a s = Some s'" "keyed K s" "gathering K s" "\<not> is_cleanup a" "\<not> is_forget a"
  shows "gathering K s'"
  using assms(1)
proof (cases rule: step_cases)
  case (RegisterL t)
  have "key_of s t = K" using assms(2) RegisterL(2) by (simp add: keyed_def)
  then have "heap s = []" using assms(3) RegisterL(3) by (auto simp: gathering_def)
  then show ?thesis using RegisterL \<open>key_of s t = K\<close> by (simp add: gathering_def)
qed (use assms(3,4,5) in \<open>auto simp: gathering_def\<close>)

lemma settled_step:
  assumes "step a s = Some s'" "\<not> is_register a"
  shows "length (heap s') = length (heap s)"
  using assms by (cases rule: step_cases) auto

lemma settled_run:
  "run as s = Some s' \<Longrightarrow> list_all (\<lambda>b. \<not> is_register b) as \<Longrightarrow> length (heap s') = length (heap s)"
proof (induction as arbitrary: s)
  case Nil
  then show ?case by simp
next
  case (Cons a as)
  then show ?case by (auto split: option.splits dest: settled_step)
qed

lemma one_call_run:
  "run as s = Some s' \<Longrightarrow> keyed K s \<Longrightarrow> gathering K s \<Longrightarrow> same_key K as \<Longrightarrow>
     forget_free as \<Longrightarrow> registrations_first as \<Longrightarrow> length (heap s') \<le> 1"
proof (induction as arbitrary: s)
  case Nil
  then show ?case by (simp add: gathering_def)
next
  case (Cons a as)
  then obtain s1 where s1: "step a s = Some s1" "run as s1 = Some s'"
    by (auto split: option.splits)
  have a: "invokes_key K a" "same_key K as" "\<not> is_forget a" "forget_free as"
    using Cons.prems(4,5) by (simp_all add: same_key_def forget_free_def)
  show ?case
  proof (cases "is_cleanup a")
    case True
    then have "list_all (\<lambda>b. \<not> is_register b) as" using Cons.prems(6) by simp
    then have "length (heap s') = length (heap s1)" using settled_run[OF s1(2)] by simp
    moreover have "length (heap s1) = length (heap s)"
      using settled_step[OF s1(1)] True by (cases a) auto
    ultimately show ?thesis using Cons.prems(3) by (simp add: gathering_def)
  next
    case False
    then have "registrations_first as" using Cons.prems(6) by simp
    then show ?thesis
      using Cons.IH[OF s1(2) keyed_step[OF s1(1) Cons.prems(2) a(1)]
          gathering_step[OF s1(1) Cons.prems(2,3) False a(3)] a(2,4)] by simp
  qed
qed

lemma gathering_init: "gathering K SharedCall"
  by (simp add: gathering_def SharedCall_def)


lemma count_all: "list_all (\<lambda>c. P (pc c)) (callers s) \<Longrightarrow> count_pc P s = length (callers s)"
  by (simp add: count_pc_def list_all_iff)

lemma count_none: "list_all (\<lambda>c. \<not> P (pc c)) (callers s) \<Longrightarrow> count_pc P s = 0"
  by (simp add: count_pc_def list_all_iff)

lemma returned_registered: "returned p \<Longrightarrow> registered p \<and> \<not> flying p \<and> finished p"
  by (cases p rule: returned.cases) (simp_all add: registered_def)

lemma returned_shape: "returned p \<Longrightarrow> \<exists>c v. p = Done (Some c) (Returned v)"
  by (cases p rule: returned.cases) simp_all

lemma all_returned_at:
  "all_returned s \<Longrightarrow> t < length (callers s) \<Longrightarrow> \<exists>c v. at_pc s t = Some (Done (Some c) (Returned v))"
  by (simp add: all_returned_def list_all_length at_pc_def returned_shape)

subsection \<open>A stored failure reaches every attached caller\<close>

lemma signal_then_return:
  assumes "at_pc s v = Some (Signalling c None)" "c < length (heap s)"
    "u = v \<or> at_pc s u = Some (Waiting c)" "result (heap s ! c) = Failure e"
  shows "\<exists>s'. run [SetEvent v, Return u] s = Some s' \<and>
              at_pc s' u = Some (Done (Some c) (Raised e))"
proof -
  let ?s1 = "set_event v c None s"
  have st: "step (SetEvent v) s = Some ?s1" using assms(1) by simp
  have at: "at_pc ?s1 u = Some (Waiting c)"
    using assms(1,3) by (auto simp: set_event_def)
  have h: "event (heap ?s1 ! c)" "result (heap ?s1 ! c) = Failure e"
    using assms(2,4) by (simp_all add: set_event_def)
  have "step (Return u) ?s1 = Some (goto u (Done (Some c) (Raised e)) ?s1)"
    using at h by simp
  moreover have "at_pc (goto u (Done (Some c) (Raised e)) ?s1) u = Some (Done (Some c) (Raised e))"
    using at by simp
  ultimately show ?thesis using st by simp
qed

lemma finish_then_return:
  assumes "at_pc s v = Some (Finishing c None)" "c < length (heap s)"
    "u = v \<or> at_pc s u = Some (Waiting c)" "result (heap s ! c) = Failure e"
  shows "\<exists>s'. run [Cleanup v, SetEvent v, Return u] s = Some s' \<and>
              at_pc s' u = Some (Done (Some c) (Raised e))"
proof -
  let ?s1 = "cleanup v c None s"
  have st: "step (Cleanup v) s = Some ?s1" using assms(1) by simp
  have a: "at_pc ?s1 v = Some (Signalling c None)" "c < length (heap ?s1)"
    "u = v \<or> at_pc ?s1 u = Some (Waiting c)" "result (heap ?s1 ! c) = Failure e"
    using assms by (auto simp: cleanup_def)
  show ?thesis using signal_then_return[OF a] st by simp
qed

lemma can_receive:
  assumes "coherent s" "attached_to s u c" "result (heap s ! c) = Failure e"
  shows "\<exists>cs s'. run cs s = Some s' \<and> at_pc s' u = Some (Done (Some c) (Raised e))"
proof -
  have c: "c < length (heap s)" using inv_refs[OF assms(1,2)] .
  obtain p where p: "at_pc s u = Some p" "attached p = Some c"
    using assms(2) by (auto simp: attached_to_def split: option.splits)
  show ?thesis
  proof (cases "event (heap s ! c)")
    case True
    then have "active p \<noteq> Some c" using inv_leader_at[OF assms(1) p(1)] by blast
    then consider "p = Waiting c" | out where "p = Done (Some c) out"
      using p(2) by (cases p) auto
    then show ?thesis
    proof cases
      case 1
      then have "step (Return u) s = Some (goto u (Done (Some c) (Raised e)) s)"
        using p(1) True assms(3) by simp
      moreover have "at_pc (goto u (Done (Some c) (Raised e)) s) u = Some (Done (Some c) (Raised e))"
        using p(1) by simp
      ultimately have "run [Return u] s = Some (goto u (Done (Some c) (Raised e)) s) \<and>
          at_pc (goto u (Done (Some c) (Raised e)) s) u = Some (Done (Some c) (Raised e))"
        by simp
      then show ?thesis by blast
    next
      case 2
      then have "at_pc s u = Some (Done (Some c) out)" using p(1) by simp
      from inv_done[OF assms(1) this] have "out = Raised e" using assms(3) by auto
      then have "run [] s = Some s \<and> at_pc s u = Some (Done (Some c) (Raised e))"
        using 2 p(1) by simp
      then show ?thesis by blast
    qed
  next
    case False
    then obtain v where v: "leads s v c" using inv_led[OF assms(1) c] by blast
    then obtain q where q: "at_pc s v = Some q" "active q = Some c"
      by (auto simp: leads_def split: option.splits)
    have nl: "q \<noteq> Leading c" using inv_leader_at[OF assms(1) q] assms(3) by auto
    have np: "\<And>e'. q \<noteq> Finishing c (Some e')" "\<And>e'. q \<noteq> Signalling c (Some e')"
      using inv_pending_F[OF assms(1)] inv_pending_S[OF assms(1)] q(1) assms(3) by auto
    have uv: "u = v \<or> at_pc s u = Some (Waiting c)"
    proof (cases "active p = Some c")
      case True
      then show ?thesis using inv_unique_at[OF assms(1) p(1) True q] by simp
    next
      case na: False
      have "\<And>out. p \<noteq> Done (Some c) out"
        using inv_done_at[OF assms(1)] p(1) False by blast
      then have "p = Waiting c" using na p(2) by (cases p) auto
      then show ?thesis using p(1) by simp
    qed
    have "q = Finishing c None \<or> q = Signalling c None"
    proof (cases q)
      case (Leading d)
      then show ?thesis using q(2) nl by auto
    next
      case (Finishing d x)
      then show ?thesis using q(2) np(1) by (cases x) auto
    next
      case (Signalling d x)
      then show ?thesis using q(2) np(2) by (cases x) auto
    qed (use q(2) in auto)
    then show ?thesis
    proof
      assume "q = Finishing c None"
      then show ?thesis using finish_then_return[OF _ c uv assms(3)] q(1) by blast
    next
      assume "q = Signalling c None"
      then show ?thesis using signal_then_return[OF _ c uv assms(3)] q(1) by blast
    qed
  qed
qed

subsection \<open>Outcomes when no exception escapes the handler\<close>

lemma calm_pending: "calm s \<Longrightarrow> at_pc s t = Some (Finishing c x) \<or> at_pc s t = Some (Signalling c x) \<Longrightarrow> x = None"
  by (cases x) (auto simp: calm_def)

lemma calm_done: "calm s \<Longrightarrow> at_pc s t = Some (Done (Some c) out) \<Longrightarrow> out = unwrap (result (heap s ! c))"
  by (simp add: calm_def)

lemma done_result_step:
  assumes "step a s = Some s'" "coherent s" "at_pc s u = Some (Done (Some d) out)"
  shows "result (heap s' ! d) = result (heap s ! d)"
proof -
  have d: "d < length (heap s)" using inv_at_ref[OF assms(2,3)] by simp
  have "event (heap s ! d)" using inv_done_at[OF assms(2,3)] .
  then have "runs (heap s ! d) = 1" using inv_signalled[OF assms(2) d] by simp
  then show ?thesis using ran_stable[OF assms(1,2) d] by simp
qed

lemma calm_step:
  assumes "step a s = Some s'" "coherent s" "calm s" "raises_exception a"
  shows "calm s'"
proof -
  have K: "\<And>u d out. at_pc s u = Some (Done (Some d) out) \<Longrightarrow> out = unwrap (result (heap s' ! d))"
    using calm_done[OF assms(3)] done_result_step[OF assms(1,2)] by simp
  have P: "\<And>t c e. at_pc s t \<noteq> Some (Finishing c (Some e))"
    "\<And>t c e. at_pc s t \<noteq> Some (Signalling c (Some e))"
    using assms(3) by (simp_all add: calm_def)
  show ?thesis
    using assms(1,2)
  proof (cases rule: inv_cases)
    case (Invoke k m n g x)
    then show ?thesis
      using P K by (auto simp: calm_def at_pc_new split: if_splits)
  next
    case (RegisterF t c)
    then show ?thesis using P K by (auto simp: calm_def)
  next
    case (RegisterL t)
    then show ?thesis using P K by (auto simp: calm_def)
  next
    case (WorkOk t c v)
    then show ?thesis using P K by (auto simp: calm_def)
  next
    case (WorkErr t c e)
    then show ?thesis using P K by (auto simp: calm_def)
  next
    case (WorkBase t c e)
    then show ?thesis using assms(4) by simp
  next
    case (Cleanup t c x)
    then have "x = None" using P(1) by (cases x) auto
    then show ?thesis using Cleanup P K by (auto simp: calm_def)
  next
    case (SetEvent t c x)
    then have "x = None" using P(2) by (cases x) auto
    then show ?thesis using SetEvent P K by (auto simp: calm_def)
  next
    case (Return t c)
    then show ?thesis using P K by (auto simp: calm_def)
  next
    case Reset
    then show ?thesis using P K by (auto simp: calm_def)
  next
    case (Forget k)
    then show ?thesis using P K by (auto simp: calm_def)
  next
    case ForgetAll
    then show ?thesis using P K by (auto simp: calm_def)
  qed
qed

lemma calm_init: "calm SharedCall"
  by (simp add: calm_def SharedCall_def at_pc_def)

lemma calm_run:
  "run as s = Some s' \<Longrightarrow> coherent s \<Longrightarrow> calm s \<Longrightarrow> ordinary_failures as \<Longrightarrow> calm s'"
proof (induction as arbitrary: s)
  case Nil
  then show ?case by simp
next
  case (Cons a as)
  then obtain s1 where s1: "step a s = Some s1" "run as s1 = Some s'"
    by (auto split: option.splits)
  have a: "raises_exception a" "ordinary_failures as"
    using Cons.prems(4) by (simp_all add: ordinary_failures_def)
  show ?case
    using Cons.IH[OF s1(2) coherent_step[OF s1(1) Cons.prems(2)]
        calm_step[OF s1(1) Cons.prems(2,3) a(1)] a(2)] .
qed

lemma runs_le_1:
  assumes "coherent s" "c < length (heap s)"
  shows "runs (heap s ! c) \<le> 1"
proof (cases "event (heap s ! c)")
  case True
  then show ?thesis using inv_signalled[OF assms] by simp
next
  case False
  then obtain t where "leads s t c" using inv_led[OF assms] by blast
  then show ?thesis using inv_leader[OF assms(1)] by (auto split: if_splits)
qed


lemma signal_then_unwrap:
  assumes "at_pc s v = Some (Signalling c None)" "c < length (heap s)"
    "u = v \<or> at_pc s u = Some (Waiting c)"
  shows "\<exists>s'. run [SetEvent v, Return u] s = Some s' \<and>
              at_pc s' u = Some (Done (Some c) (unwrap (result (heap s ! c))))"
proof -
  let ?s1 = "set_event v c None s"
  have st: "step (SetEvent v) s = Some ?s1" using assms(1) by simp
  have at: "at_pc ?s1 u = Some (Waiting c)"
    using assms(1,3) by (auto simp: set_event_def)
  have h: "event (heap ?s1 ! c)" "result (heap ?s1 ! c) = result (heap s ! c)"
    using assms(2) by (simp_all add: set_event_def)
  let ?s2 = "goto u (Done (Some c) (unwrap (result (heap s ! c)))) ?s1"
  have "step (Return u) ?s1 = Some ?s2"
    using at h by simp
  moreover have "at_pc ?s2 u = Some (Done (Some c) (unwrap (result (heap s ! c))))"
    using at by simp
  ultimately show ?thesis using st by simp
qed

lemma finish_then_unwrap:
  assumes "at_pc s v = Some (Finishing c None)" "c < length (heap s)"
    "u = v \<or> at_pc s u = Some (Waiting c)"
  shows "\<exists>s'. run [Cleanup v, SetEvent v, Return u] s = Some s' \<and>
              at_pc s' u = Some (Done (Some c) (unwrap (result (heap s ! c))))"
proof -
  let ?s1 = "cleanup v c None s"
  have st: "step (Cleanup v) s = Some ?s1" using assms(1) by simp
  have a: "at_pc ?s1 v = Some (Signalling c None)" "c < length (heap ?s1)"
    "u = v \<or> at_pc ?s1 u = Some (Waiting c)"
    using assms by (auto simp: cleanup_def)
  have "result (heap ?s1 ! c) = result (heap s ! c)" by (simp add: cleanup_def)
  then show ?thesis using signal_then_unwrap[OF a] st by simp
qed

lemma can_finish:
  assumes "coherent s" "calm s" "attached_to s u c" "runs (heap s ! c) = 1"
  shows "\<exists>cs s'. run cs s = Some s' \<and>
           at_pc s' u = Some (Done (Some c) (unwrap (result (heap s ! c))))"
proof -
  have c: "c < length (heap s)" using inv_refs[OF assms(1,3)] .
  obtain p where p: "at_pc s u = Some p" "attached p = Some c"
    using assms(3) by (auto simp: attached_to_def split: option.splits)
  show ?thesis
  proof (cases "event (heap s ! c)")
    case True
    then have "active p \<noteq> Some c" using inv_leader_at[OF assms(1) p(1)] by blast
    then consider "p = Waiting c" | out where "p = Done (Some c) out"
      using p(2) by (cases p) auto
    then show ?thesis
    proof cases
      case 1
      let ?s' = "goto u (Done (Some c) (unwrap (result (heap s ! c)))) s"
      have "step (Return u) s = Some ?s'"
        using 1 p(1) True by simp
      moreover have "at_pc ?s' u = Some (Done (Some c) (unwrap (result (heap s ! c))))"
        using p(1) by simp
      ultimately have "run [Return u] s = Some ?s' \<and>
          at_pc ?s' u = Some (Done (Some c) (unwrap (result (heap s ! c))))"
        by simp
      then show ?thesis by blast
    next
      case 2
      then have "at_pc s u = Some (Done (Some c) out)" using p(1) by simp
      from calm_done[OF assms(2) this] have "out = unwrap (result (heap s ! c))" .
      then have "run [] s = Some s \<and> at_pc s u = Some (Done (Some c) (unwrap (result (heap s ! c))))"
        using 2 p(1) by simp
      then show ?thesis by blast
    qed
  next
    case False
    then obtain v where v: "leads s v c" using inv_led[OF assms(1) c] by blast
    then obtain q where q: "at_pc s v = Some q" "active q = Some c"
      by (auto simp: leads_def split: option.splits)
    have nl: "q \<noteq> Leading c" using inv_leader_at[OF assms(1) q] assms(4) by auto
    have uv: "u = v \<or> at_pc s u = Some (Waiting c)"
    proof (cases "active p = Some c")
      case True
      then show ?thesis using inv_unique_at[OF assms(1) p(1) True q] by simp
    next
      case na: False
      have "\<And>out. p \<noteq> Done (Some c) out"
        using inv_done_at[OF assms(1)] p(1) False by blast
      then have "p = Waiting c" using na p(2) by (cases p) auto
      then show ?thesis using p(1) by simp
    qed
    have "q = Finishing c None \<or> q = Signalling c None"
    proof (cases q)
      case (Leading d)
      then show ?thesis using q(2) nl by auto
    next
      case (Finishing d x)
      then show ?thesis using q calm_pending[OF assms(2), of v d x] by auto
    next
      case (Signalling d x)
      then show ?thesis using q calm_pending[OF assms(2), of v d x] by auto
    qed (use q(2) in auto)
    then show ?thesis
    proof
      assume "q = Finishing c None"
      then show ?thesis using finish_then_unwrap[OF _ c uv] q(1) by blast
    next
      assume "q = Signalling c None"
      then show ?thesis using signal_then_unwrap[OF _ c uv] q(1) by blast
    qed
  qed
qed

lemma executions_one_call:
  "length (heap s) \<le> 1 \<Longrightarrow> executions s = (if heap s = [] then 0 else runs (heap s ! 0))"
  by (cases "heap s") (simp_all add: executions_def)

section \<open>The claims\<close>

text \<open>
  C4, as stated, fails: an explicit key that is the empty string is not used. \<^verbatim>\<open>if not key\<close>
  (line 32) treats it like an absent key, and the call is registered under the derived
  key.
\<close>

theorem empty_key_counterexample:
  "call_key (Some '''') ''app'' ''load'' (Inr ''7'') = Inr ''app.load:7'' \<and>
   map_option in_flight_calls
     (run [Invoke (Some '''') ''app'' ''load'' (Inr ''7''), Register 0] (SharedCall :: nat system))
   = Some [(''app.load:7'', 0)]"
  by (simp add: call_key_def at_pc_def register_def goto_def SharedCall_def)

text \<open>
  C4, amended: an explicit key that is a non-empty string is the key of the call, unchanged,
  and the call is registered under it. With no key, or with the empty string as key, the
  key is the module of the work function, a dot, its name, a colon and what
  \<^verbatim>\<open>generate_key\<close> returns for the arguments.
\<close>

theorem explicit_key_unchanged:
  "(k \<noteq> [] \<longrightarrow>
      call_key (Some k) m n g = Inr k \<and>
      (\<exists>s'. run [Invoke (Some k) m n g, Register (length (callers s))] s = Some s' \<and>
            key_of s' (length (callers s)) = k \<and>
            map_of (in_flight_calls s') k \<noteq> None)) \<and>
   call_key None m n (Inr f) = Inr (m @ ''.'' @ n @ '':'' @ f) \<and>
   call_key (Some []) m n (Inr f) = Inr (m @ ''.'' @ n @ '':'' @ f)"
  by (auto simp: call_key_def at_pc_def register_def goto_def key_of_def Let_def update_conv'
      split: option.splits)

theorem explicit_key_unchanged_witness:
  "''user:7'' \<noteq> [] \<and> call_key (Some ''user:7'') ''app'' ''load'' (Inl (Exception 0)) = Inr ''user:7''"
proof -
  have ne: "''user:7'' \<noteq> []" by simp
  show ?thesis
    using explicit_key_unchanged[of "''user:7''" "''app''" "''load''" "Inl (Exception 0)" SharedCall "''x''"] ne
    by blast
qed

text \<open>
  C9: when no key is given (or the empty one) and \<^verbatim>\<open>generate_key\<close> raises \<open>e\<close>, the caller
  gets \<open>e\<close>; the registry, the counters, the call objects and the other callers are as
  before; and in no continuation does this caller run a work function.
\<close>

theorem key_derivation_failure:
  assumes "falsy k"
  shows "\<exists>s'. step (Invoke k m n (Inl e)) s = Some s' \<and>
           in_flight_calls s' = in_flight_calls s \<and> stats s' = stats s \<and> heap s' = heap s \<and>
           take (length (callers s)) (callers s') = callers s \<and>
           at_pc s' (length (callers s)) = Some (Done None (Raised e)) \<and>
           (\<forall>as s'' r. run as s' = Some s'' \<longrightarrow>
              Work (length (callers s)) r \<notin> set as \<and>
              at_pc s'' (length (callers s)) = Some (Done None (Raised e)))"
proof -
  let ?s' = "s\<lparr>callers := callers s @ [\<lparr>key = [], pc = Done None (Raised e)\<rparr>]\<rparr>"
  have st: "step (Invoke k m n (Inl e)) s = Some ?s'"
    using assms by (simp add: call_key_def)
  have at: "at_pc ?s' (length (callers s)) = Some (Done None (Raised e))"
    by (simp add: at_pc_def)
  show ?thesis
    using st at done_never_works[OF _ at] by auto
qed

theorem key_derivation_failure_witness:
  "falsy None \<and>
   map_option get_stats (run [Invoke None ''app'' ''load'' (Inl (Exception 0))] (SharedCall :: nat system))
     = Some Stats \<and>
   run [Invoke None ''app'' ''load'' (Inl (Exception 0)), Work 0 (Inr 1)] (SharedCall :: nat system) = None"
proof -
  have f: "falsy None" by simp
  have len: "length (callers (SharedCall :: nat system)) = 0"
    by (simp add: SharedCall_def)
  obtain s' where s': "step (Invoke None ''app'' ''load'' (Inl (Exception 0))) (SharedCall :: nat system) = Some s'"
     "stats s' = stats (SharedCall :: nat system)"
     "\<forall>as s'' r. run as s' = Some s'' \<longrightarrow> Work (length (callers (SharedCall :: nat system))) r \<notin> set as"
    using key_derivation_failure[OF f, of "''app''" "''load''" "Exception 0" "SharedCall :: nat system"]
    by blast
  have "run [Work 0 (Inr 1)] s' = None"
  proof (cases "run [Work 0 (Inr 1)] s'")
    case (Some s'')
    then have "Work 0 (Inr 1) \<notin> set [Work 0 (Inr 1) :: nat action]"
      using s'(3) unfolding len by blast
    then show ?thesis by simp
  qed simp
  then show ?thesis using s'(1,2) f by (simp add: get_stats_def SharedCall_def)
qed

text \<open>
  C10: when \<^verbatim>\<open>reset_stats\<close> runs while a leader is in flight (before or after its work
  function has finished) and the leader then goes through its \<^verbatim>\<open>finally\<close> block,
  \<^verbatim>\<open>get_stats\<close> returns \<open>in_flight = -1\<close>.
\<close>

theorem reset_stats_mid_flight:
  "(at_pc s t = Some (Leading c) \<longrightarrow>
      (\<exists>s'. run [ResetStats, Work t r, Cleanup t, SetEvent t] s = Some s' \<and>
            in_flight (get_stats s') = - 1)) \<and>
   (at_pc s t = Some (Finishing c x) \<longrightarrow>
      (\<exists>s'. run [ResetStats, Cleanup t, SetEvent t] s = Some s' \<and>
            in_flight (get_stats s') = - 1))"
  by (auto simp: at_pc_def goto_def work_def cleanup_def set_event_def reset_stats_def get_stats_def
      Stats_def Let_def split: sum.splits)

theorem reset_stats_mid_flight_witness:
  "run [Invoke (Some ''K'') ''app'' ''load'' (Inr ''7''), Register 0] (SharedCall :: nat system)
     = Some \<lparr>in_flight_calls = [(''K'', 0)],
             stats = \<lparr>hits = 0, misses = 1, errors = 0, in_flight = 1\<rparr>,
             heap = [SyncCall],
             callers = [\<lparr>key = ''K'', pc = Leading 0\<rparr>]\<rparr> \<and>
   (\<exists>s'. run [ResetStats, Work 0 (Inr (5 :: nat)), Cleanup 0, SetEvent 0]
            \<lparr>in_flight_calls = [(''K'', 0)],
             stats = \<lparr>hits = 0, misses = 1, errors = 0, in_flight = 1\<rparr>,
             heap = [SyncCall],
             callers = [\<lparr>key = ''K'', pc = Leading 0\<rparr>]\<rparr> = Some s' \<and>
         in_flight (get_stats s') = - 1)"
proof -
  let ?s = "\<lparr>in_flight_calls = [(''K'', 0)],
             stats = \<lparr>hits = 0, misses = 1, errors = 0, in_flight = 1\<rparr>,
             heap = [SyncCall],
             callers = [\<lparr>key = ''K'', pc = Leading 0\<rparr>]\<rparr> :: nat system"
  have a: "at_pc ?s 0 = Some (Leading 0)"
    by (simp add: at_pc_def)
  have r: "run [Invoke (Some ''K'') ''app'' ''load'' (Inr ''7''), Register 0] SharedCall = Some ?s"
    by (simp add: call_key_def at_pc_def register_def goto_def SharedCall_def Stats_def)
  show ?thesis
    using r a reset_stats_mid_flight[of ?s 0 0 "Inr 5"] by blast
qed



text \<open>
  C5: the code does not do what the claim says. The leader's \<^verbatim>\<open>finally\<close> block is
  \<^verbatim>\<open>self.in_flight.pop(key, None)\<close> (line 55): the default \<^verbatim>\<open>None\<close> allows for a
  \<^verbatim>\<open>forget\<close> that has removed the entry, but the pop does not look at which call object
  the key maps to. Caller 0 leads a call for \<open>K\<close>, \<open>K\<close> is forgotten and caller 1 registers
  a new call object under \<open>K\<close>; when caller 0 finishes, the entry of caller 1 is removed.
  Caller 2 then finds no entry and becomes a leader while caller 1 is still one, with no
  \<^verbatim>\<open>forget\<close> between them: two callers do the work for \<open>K\<close> at the same time, against the
  docstring of \<^verbatim>\<open>call\<close>, and the work function has run three times when both are through
  lines 54-56.
\<close>

theorem leader_pops_newer_entry:
  "map_option in_flight_calls
     (run [Invoke (Some ''K'') ''app'' ''load'' (Inr ''7''), Register 0, Forget ''K'',
           Invoke (Some ''K'') ''app'' ''load'' (Inr ''7''), Register 1, Work 0 (Inr 5)]
        (SharedCall :: nat system)) = Some [(''K'', 1)] \<and>
   map_option in_flight_calls
     (run [Invoke (Some ''K'') ''app'' ''load'' (Inr ''7''), Register 0, Forget ''K'',
           Invoke (Some ''K'') ''app'' ''load'' (Inr ''7''), Register 1, Work 0 (Inr 5),
           Cleanup 0]
        (SharedCall :: nat system)) = Some [] \<and>
   map_option (\<lambda>s. (map pc (callers s), in_flight_calls s))
     (run [Invoke (Some ''K'') ''app'' ''load'' (Inr ''7''), Register 0, Forget ''K'',
           Invoke (Some ''K'') ''app'' ''load'' (Inr ''7''), Register 1, Work 0 (Inr 5),
           Cleanup 0, Invoke (Some ''K'') ''app'' ''load'' (Inr ''7''), Register 2]
        (SharedCall :: nat system))
     = Some ([Signalling 0 None, Leading 1, Leading 2], [(''K'', 2)]) \<and>
   map_option (\<lambda>s. (executions s, get_stats s))
     (run [Invoke (Some ''K'') ''app'' ''load'' (Inr ''7''), Register 0, Forget ''K'',
           Invoke (Some ''K'') ''app'' ''load'' (Inr ''7''), Register 1, Work 0 (Inr 5),
           Cleanup 0, Invoke (Some ''K'') ''app'' ''load'' (Inr ''7''), Register 2,
           Work 1 (Inr 6), Work 2 (Inr 7), Cleanup 1, Cleanup 2]
        (SharedCall :: nat system))
     = Some (3, \<lparr>hits = 0, misses = 3, errors = 0, in_flight = 0\<rparr>)"
  by (simp add: call_key_def at_pc_def register_def goto_def forget_def work_def cleanup_def
      get_stats_def executions_def SharedCall_def Stats_def SyncCall_def Let_def)

text \<open>
  C7: \<^verbatim>\<open>forget(k)\<close> is always enabled and changes the registry at \<open>k\<close> and nothing else:
  call objects, callers and counters are as before and the other keys keep their
  entries. It commutes with every schedule of steps of callers that have registered
  (work, the \<^verbatim>\<open>finally\<close> block, the event, the return), so a leader in progress and its
  followers behave as if nothing had been forgotten and end with the same outcomes. A
  caller for \<open>k\<close> that registers right after the \<^verbatim>\<open>forget\<close> becomes the leader of a new
  call object. In the scenario of the spec (a leader for \<open>K\<close> with a follower, then
  \<^verbatim>\<open>forget\<close>, then a new call for \<open>K\<close>), however the registered callers interleave
  afterwards, once all have left \<^verbatim>\<open>call\<close> the work function has run exactly twice, the
  first two callers are attached to the first call object and the third to the second;
  in one such interleaving the first two return the first result and the third the
  second.
\<close>

theorem forget_only_unregisters:
  fixes s :: "'v system" and v w :: 'v
  shows
  "step (Forget k) s = Some (forget k s) \<and>
   heap (forget k s) = heap s \<and> callers (forget k s) = callers s \<and>
   stats (forget k s) = stats s \<and>
   map_of (in_flight_calls (forget k s)) k = None \<and>
   (\<forall>k'. k' \<noteq> k \<longrightarrow> map_of (in_flight_calls (forget k s)) k' = map_of (in_flight_calls s) k') \<and>
   (list_all attached_step as \<longrightarrow> run as (forget k s) = map_option (forget k) (run as s)) \<and>
   (at_pc s t = Some AtLock \<and> key_of s t = k \<longrightarrow>
      (\<exists>s'. step (Register t) (forget k s) = Some s' \<and>
            at_pc s' t = Some (Leading (length (heap s))))) \<and>
   (\<forall>bs s'. list_all attached_step bs \<and> all_done s' \<and>
        run ([Invoke (Some ''K'') m n g, Register 0, Invoke (Some ''K'') m n g, Register 1,
              Forget ''K'', Invoke (Some ''K'') m n g, Register 2] @ bs) (SharedCall :: 'v system) = Some s' \<longrightarrow>
        executions s' = 2 \<and> attached_to s' 0 0 \<and> attached_to s' 1 0 \<and> attached_to s' 2 1) \<and>
   (\<exists>s'. run [Invoke (Some ''K'') m n g, Register 0, Invoke (Some ''K'') m n g, Register 1,
              Forget ''K'', Invoke (Some ''K'') m n g, Register 2,
              Work 2 (Inr w), Work 0 (Inr v), Cleanup 0, SetEvent 0, Return 0, Return 1,
              Cleanup 2, SetEvent 2, Return 2] (SharedCall :: 'v system) = Some s' \<and>
         map pc (callers s') = [Done (Some 0) (Returned v), Done (Some 0) (Returned v),
                                Done (Some 1) (Returned w)] \<and>
         executions s' = 2)"
proof -
  let ?P = "[Invoke (Some ''K'') m n g, Register 0, Invoke (Some ''K'') m n g, Register 1,
             Forget ''K'', Invoke (Some ''K'') m n g, Register 2] :: 'v action list"
  let ?s7 = "\<lparr>in_flight_calls = [(''K'', 1)],
              stats = \<lparr>hits = 1, misses = 2, errors = 0, in_flight = 2\<rparr>,
              heap = [SyncCall, SyncCall],
              callers = [\<lparr>key = ''K'', pc = Leading 0\<rparr>, \<lparr>key = ''K'', pc = Waiting 0\<rparr>,
                         \<lparr>key = ''K'', pc = Leading 1\<rparr>]\<rparr> :: 'v system"
  have P: "run ?P SharedCall = Some ?s7"
    by (simp add: call_key_def at_pc_def register_def goto_def forget_def SharedCall_def Stats_def
        Let_def)
  have frame: "map_of (in_flight_calls (forget k s)) k = None"
    "\<forall>k'. k' \<noteq> k \<longrightarrow> map_of (in_flight_calls (forget k s)) k' = map_of (in_flight_calls s) k'"
    by (simp_all add: delete_conv')
  have new: "\<exists>s'. step (Register t) (forget k s) = Some s' \<and>
                at_pc s' t = Some (Leading (length (heap s)))"
    if "at_pc s t = Some AtLock" "key_of s t = k"
  proof -
    have "map_of (in_flight_calls (forget k s)) (key_of (forget k s) t) = None"
      using that(2) frame(1) by simp
    then show ?thesis
      using that(1) by (simp add: register_leader)
  qed
  have general: "executions s' = 2 \<and> attached_to s' 0 0 \<and> attached_to s' 1 0 \<and> attached_to s' 2 1"
    if h: "list_all attached_step bs" "all_done s'" "run (?P @ bs) (SharedCall :: 'v system) = Some s'" for bs s'
  proof -
    have bs: "run bs ?s7 = Some s'" using h(3) P by (simp only: run_append option.case)
    have coh: "coherent s'" using h(3) by (rule coherent_reachable)
    have a0: "attached_to s' 0 0" and a1: "attached_to s' 1 0" and a2: "attached_to s' 2 1"
      by (rule attached_stable_run[OF bs], simp add: attached_to_def at_pc_def)+
    have len: "length (heap s') = 2" using attached_run_heap[OF bs h(1)] by simp
    have "runs (heap s' ! 0) = 1" "runs (heap s' ! 1) = 1"
      using done_ran[OF coh h(2) a0] done_ran[OF coh h(2) a2] by simp_all
    then have "executions s' = 2" by (simp add: executions_def sum_two[OF len])
    then show ?thesis using a0 a1 a2 by simp
  qed
  have concrete: "\<exists>s'. run [Invoke (Some ''K'') m n g, Register 0, Invoke (Some ''K'') m n g, Register 1,
              Forget ''K'', Invoke (Some ''K'') m n g, Register 2,
              Work 2 (Inr w), Work 0 (Inr v), Cleanup 0, SetEvent 0, Return 0, Return 1,
              Cleanup 2, SetEvent 2, Return 2] (SharedCall :: 'v system) = Some s' \<and>
         map pc (callers s') = [Done (Some 0) (Returned v), Done (Some 0) (Returned v),
                                Done (Some 1) (Returned w)] \<and>
         executions s' = 2"
  proof -
    have "run (?P @ [Work 2 (Inr w), Work 0 (Inr v), Cleanup 0, SetEvent 0, Return 0, Return 1,
              Cleanup 2, SetEvent 2, Return 2]) SharedCall
          = run [Work 2 (Inr w), Work 0 (Inr v), Cleanup 0, SetEvent 0, Return 0, Return 1,
              Cleanup 2, SetEvent 2, Return 2] ?s7"
      by (simp only: run_append P option.case)
    moreover have "\<exists>s'. run [Work 2 (Inr w), Work 0 (Inr v), Cleanup 0, SetEvent 0, Return 0, Return 1,
              Cleanup 2, SetEvent 2, Return 2] ?s7 = Some s' \<and>
         map pc (callers s') = [Done (Some 0) (Returned v), Done (Some 0) (Returned v),
                                Done (Some 1) (Returned w)] \<and>
         executions s' = 2"
      by (simp add: at_pc_def goto_def work_def cleanup_def set_event_def SyncCall_def
          executions_def Let_def)
    ultimately show ?thesis by (simp only: append.simps)
  qed
  have c1: "step (Forget k) s = Some (forget k s)" by simp
  have c2: "heap (forget k s) = heap s" "callers (forget k s) = callers s"
    "stats (forget k s) = stats s" by simp_all
  have c3: "list_all attached_step as \<longrightarrow> run as (forget k s) = map_option (forget k) (run as s)"
    using forget_commutes_run by blast
  have c4: "at_pc s t = Some AtLock \<and> key_of s t = k \<longrightarrow>
      (\<exists>s'. step (Register t) (forget k s) = Some s' \<and>
            at_pc s' t = Some (Leading (length (heap s))))"
    using new by blast
  have c5: "\<forall>bs s'. list_all attached_step bs \<and> all_done s' \<and>
        run ([Invoke (Some ''K'') m n g, Register 0, Invoke (Some ''K'') m n g, Register 1,
              Forget ''K'', Invoke (Some ''K'') m n g, Register 2] @ bs) (SharedCall :: 'v system) = Some s' \<longrightarrow>
        executions s' = 2 \<and> attached_to s' 0 0 \<and> attached_to s' 1 0 \<and> attached_to s' 2 1"
    using general by blast
  show ?thesis
    by (intro conjI) (rule c1 c2 frame c3 c4 c5 concrete)+
qed


theorem forget_only_unregisters_witness:
  "list_all attached_step [Work 0 (Inr (5 :: nat))] \<and>
   run [Work 0 (Inr (5 :: nat))]
     (forget ''K'' \<lparr>in_flight_calls = [(''K'', 0)],
                    stats = \<lparr>hits = 0, misses = 1, errors = 0, in_flight = 1\<rparr>,
                    heap = [SyncCall],
                    callers = [\<lparr>key = ''K'', pc = Leading 0\<rparr>, \<lparr>key = ''K'', pc = AtLock\<rparr>]\<rparr>)
   = map_option (forget ''K'')
       (run [Work 0 (Inr (5 :: nat))]
          \<lparr>in_flight_calls = [(''K'', 0)],
           stats = \<lparr>hits = 0, misses = 1, errors = 0, in_flight = 1\<rparr>,
           heap = [SyncCall],
           callers = [\<lparr>key = ''K'', pc = Leading 0\<rparr>, \<lparr>key = ''K'', pc = AtLock\<rparr>]\<rparr>) \<and>
   at_pc \<lparr>in_flight_calls = [(''K'', 0)],
          stats = \<lparr>hits = 0, misses = 1, errors = 0, in_flight = 1\<rparr>,
          heap = [SyncCall :: nat sync_call],
          callers = [\<lparr>key = ''K'', pc = Leading 0\<rparr>, \<lparr>key = ''K'', pc = AtLock\<rparr>]\<rparr> 1
     = Some AtLock \<and>
   map_option (\<lambda>s'. at_pc s' 1)
     (step (Register 1)
        (forget ''K'' \<lparr>in_flight_calls = [(''K'', 0)],
                       stats = \<lparr>hits = 0, misses = 1, errors = 0, in_flight = 1\<rparr>,
                       heap = [SyncCall :: nat sync_call],
                       callers = [\<lparr>key = ''K'', pc = Leading 0\<rparr>,
                                  \<lparr>key = ''K'', pc = AtLock\<rparr>]\<rparr>))
     = Some (Some (Leading 1)) \<and>
   list_all attached_step [Work 2 (Inr (6 :: nat)), Work 0 (Inr 5), Cleanup 0, SetEvent 0,
     Return 0, Return 1, Cleanup 2, SetEvent 2, Return 2] \<and>
   map_option (\<lambda>s'. (all_done s', executions s'))
     (run ([Invoke (Some ''K'') ''app'' ''load'' (Inr ''7''), Register 0,
            Invoke (Some ''K'') ''app'' ''load'' (Inr ''7''), Register 1, Forget ''K'',
            Invoke (Some ''K'') ''app'' ''load'' (Inr ''7''), Register 2] @
           [Work 2 (Inr (6 :: nat)), Work 0 (Inr 5), Cleanup 0, SetEvent 0,
            Return 0, Return 1, Cleanup 2, SetEvent 2, Return 2]) (SharedCall :: nat system))
     = Some (True, 2)"
proof -
  let ?s = "\<lparr>in_flight_calls = [(''K'', 0)],
             stats = \<lparr>hits = 0, misses = 1, errors = 0, in_flight = 1\<rparr>,
             heap = [SyncCall],
             callers = [\<lparr>key = ''K'', pc = Leading 0\<rparr>, \<lparr>key = ''K'', pc = AtLock\<rparr>]\<rparr>
            :: nat system"
  let ?bs = "[Work 2 (Inr (6 :: nat)), Work 0 (Inr 5), Cleanup 0, SetEvent 0,
     Return 0, Return 1, Cleanup 2, SetEvent 2, Return 2]"
  let ?P = "[Invoke (Some ''K'') ''app'' ''load'' (Inr ''7''), Register 0,
            Invoke (Some ''K'') ''app'' ''load'' (Inr ''7''), Register 1, Forget ''K'',
            Invoke (Some ''K'') ''app'' ''load'' (Inr ''7''), Register 2] :: nat action list"
  note T = forget_only_unregisters[of "''K''" ?s "[Work 0 (Inr 5)]" 1 "''app''" "''load''"
      "Inr ''7''" 6 5]
  have h1: "list_all attached_step [Work 0 (Inr (5 :: nat))]" by simp
  have h2: "at_pc ?s 1 = Some AtLock" "key_of ?s 1 = ''K''"
    by (simp_all add: at_pc_def key_of_def)
  have w1: "run [Work 0 (Inr 5)] (forget ''K'' ?s) = map_option (forget ''K'') (run [Work 0 (Inr 5)] ?s)"
    using T h1 by blast
  obtain s' where s': "step (Register 1) (forget ''K'' ?s) = Some s'"
      "at_pc s' 1 = Some (Leading (length (heap ?s)))"
    using T h2 by blast
  have w2: "map_option (\<lambda>s'. at_pc s' 1) (step (Register 1) (forget ''K'' ?s)) = Some (Some (Leading 1))"
    using s' by simp
  have h3: "list_all attached_step ?bs" by simp
  have "\<exists>s''. run (?P @ ?bs) SharedCall = Some s'' \<and> all_done s''"
    by (simp add: call_key_def at_pc_def register_def goto_def forget_def work_def cleanup_def
        set_event_def SharedCall_def Stats_def SyncCall_def all_done_def Let_def)
  then obtain s'' where s'': "run (?P @ ?bs) SharedCall = Some s''" "all_done s''" by blast
  then have "executions s'' = 2" using T h3 by blast
  then have w3: "map_option (\<lambda>s'. (all_done s', executions s')) (run (?P @ ?bs) SharedCall) = Some (True, 2)"
    using s'' by simp
  show ?thesis
    by (intro conjI) (rule h1 w1 h2(1) w2 h3 w3)+
qed

text \<open>
  C6, as stated, fails: \<^verbatim>\<open>forget\<close> removes an entry and leaves the counter alone (the
  leader still decrements it when it finishes). After a leader has registered for \<open>K\<close> and
  \<open>K\<close> has been forgotten, \<^verbatim>\<open>get_stats\<close> gives \<open>in_flight = 1\<close> and the registry has no key.
\<close>

theorem forget_unbalances_in_flight:
  "map_option (\<lambda>s. (in_flight (get_stats s), length (in_flight_calls s)))
     (run [Invoke (Some ''K'') ''app'' ''load'' (Inr ''7''), Register 0, Forget ''K'']
        (SharedCall :: nat system)) = Some (1, 0)"
  by (simp add: call_key_def at_pc_def register_def goto_def forget_def get_stats_def
      SharedCall_def Stats_def)

text \<open>
  C6, amended: in every state reached from a new coordinator by a schedule without
  \<^verbatim>\<open>reset_stats\<close>, \<open>in_flight\<close> is the number of leaders that have registered and have not
  yet gone through lines 54-56, so it is not negative; if the schedule has no
  \<^verbatim>\<open>forget\<close> and no \<^verbatim>\<open>forget_all\<close> either, the registry has one pair per key and
  \<open>in_flight\<close> is the number of its keys.
\<close>

theorem in_flight_counts_leaders:
  assumes "run as SharedCall = Some s" "reset_free as"
  shows "in_flight (get_stats s) = int (count_pc flying s) \<and>
         0 \<le> in_flight (get_stats s) \<and>
         (forget_free as \<longrightarrow>
            distinct (map fst (in_flight_calls s)) \<and>
            in_flight (get_stats s) = int (length (in_flight_calls s)))"
proof -
  have coh: "coherent s" using assms(1) by (rule coherent_reachable)
  have "ledger s" using ledger_run[OF assms(1,2) inv_init ledger_init] .
  then have 1: "in_flight (get_stats s) = int (count_pc flying s)"
    by (simp add: ledger_def get_stats_def)
  have 2: "in_flight (get_stats s) = int (length (in_flight_calls s))" if "forget_free as"
    using balance_run[OF assms(1) that assms(2) inv_init present_init]
    by (simp add: get_stats_def SharedCall_def Stats_def)
  show ?thesis using 1 2 inv_distinct[OF coh] by simp
qed

theorem in_flight_counts_leaders_witness:
  "run [Invoke (Some ''K'') ''app'' ''load'' (Inr ''7''), Register 0] (SharedCall :: nat system)
     = Some \<lparr>in_flight_calls = [(''K'', 0)],
             stats = \<lparr>hits = 0, misses = 1, errors = 0, in_flight = 1\<rparr>,
             heap = [SyncCall],
             callers = [\<lparr>key = ''K'', pc = Leading 0\<rparr>]\<rparr> \<and>
   reset_free [Invoke (Some ''K'') ''app'' ''load'' (Inr ''7''), Register 0 :: nat action] \<and>
   forget_free [Invoke (Some ''K'') ''app'' ''load'' (Inr ''7''), Register 0 :: nat action] \<and>
   in_flight (get_stats \<lparr>in_flight_calls = [(''K'', 0)],
             stats = \<lparr>hits = 0, misses = 1, errors = 0, in_flight = 1\<rparr>,
             heap = [SyncCall :: nat sync_call],
             callers = [\<lparr>key = ''K'', pc = Leading 0\<rparr>]\<rparr>) = 1"
proof -
  let ?as = "[Invoke (Some ''K'') ''app'' ''load'' (Inr ''7''), Register 0] :: nat action list"
  let ?s = "\<lparr>in_flight_calls = [(''K'', 0)],
             stats = \<lparr>hits = 0, misses = 1, errors = 0, in_flight = 1\<rparr>,
             heap = [SyncCall],
             callers = [\<lparr>key = ''K'', pc = Leading 0\<rparr>]\<rparr> :: nat system"
  have r: "run ?as SharedCall = Some ?s"
    by (simp add: call_key_def at_pc_def register_def goto_def SharedCall_def Stats_def)
  have f: "reset_free ?as" "forget_free ?as" by (simp_all add: reset_free_def forget_free_def)
  have "in_flight (get_stats ?s) = int (length (in_flight_calls ?s))"
    using in_flight_counts_leaders[OF r f(1)] f(2) by blast
  then have "in_flight (get_stats ?s) = 1" by simp
  then show ?thesis using r f by blast
qed

text \<open>
  C3, as stated, fails for an exception that \<^verbatim>\<open>except Exception\<close> (line 50) does not
  catch, such as \<^verbatim>\<open>KeyboardInterrupt\<close>, \<^verbatim>\<open>SystemExit\<close> or, in the async variant, the
  \<^verbatim>\<open>CancelledError\<close> of a cancelled leader task: the \<^verbatim>\<open>finally\<close> block runs and the
  exception leaves the leader's \<^verbatim>\<open>call\<close>, but nothing is stored in the result and
  \<open>errors\<close> is not incremented. The follower wakes up and unwraps a result that was
  never set.
\<close>

theorem uncaught_failure_not_shared:
  "map_option (\<lambda>s. (errors (get_stats s), map pc (callers s)))
     (run [Invoke (Some ''K'') ''app'' ''load'' (Inr ''7''), Register 0,
           Invoke (Some ''K'') ''app'' ''load'' (Inr ''7''), Register 1,
           Work 0 (Inl (BaseException 0)), Cleanup 0, SetEvent 0, Return 1]
        (SharedCall :: nat system))
   = Some (0, [Done (Some 0) (Raised (BaseException 0)), Done (Some 0) UnsetRead])"
  by (simp add: call_key_def at_pc_def register_def goto_def work_def cleanup_def set_event_def
      get_stats_def SharedCall_def Stats_def SyncCall_def Let_def)

text \<open>
  C3, amended: when the work function of a leader raises an exception \<open>e\<close> that derives
  from \<^verbatim>\<open>Exception\<close>, \<open>errors\<close> goes up by one in that step. In every continuation the
  call object holds the failure \<open>e\<close>; the leader and every follower stay attached to it;
  every caller attached to it, whether it registered before or after, can go on to leave
  \<^verbatim>\<open>call\<close> (the leader's remaining steps and the caller's return are enabled) and is then
  given \<open>e\<close> itself, and no caller that has left \<^verbatim>\<open>call\<close> attached to it was given
  anything else. As long as the schedule has no \<^verbatim>\<open>reset_stats\<close>, \<open>errors\<close> is the number
  of call objects that hold a failure (one per failed leader execution, whatever the
  number of followers). Once the leader has gone through lines 54-56 its key has no
  entry, so that a caller registering for it becomes the leader of a new call object.
\<close>

theorem failure_is_shared:
  assumes "run as SharedCall = Some s" "at_pc s t = Some (Leading c)" "caught e"
  shows "\<exists>s1 s2. step (Work t (Inl e)) s = Some s1 \<and>
           errors (stats s1) = errors (stats s) + 1 \<and>
           attached_to s t c \<and>
           (\<forall>bs s'. run bs s1 = Some s' \<longrightarrow>
              result (heap s' ! c) = Failure e \<and>
              (\<forall>u. attached_to s u c \<longrightarrow> attached_to s' u c) \<and>
              (\<forall>u. attached_to s' u c \<longrightarrow>
                 (\<exists>cs s''. run cs s' = Some s'' \<and>
                    at_pc s'' u = Some (Done (Some c) (Raised e)))) \<and>
              (\<forall>u out. at_pc s' u = Some (Done (Some c) out) \<longrightarrow> out = Raised e) \<and>
              (reset_free (as @ Work t (Inl e) # bs) \<longrightarrow> errors (stats s') = int (failures s'))) \<and>
           step (Cleanup t) s1 = Some s2 \<and>
           map_of (in_flight_calls s2) (key_of s t) = None \<and>
           (\<forall>u. at_pc s2 u = Some AtLock \<and> key_of s2 u = key_of s t \<longrightarrow>
              (\<exists>s3. step (Register u) s2 = Some s3 \<and> at_pc s3 u = Some (Leading (length (heap s2)))))"
proof -
  have coh: "coherent s" using assms(1) by (rule coherent_reachable)
  have c: "c < length (heap s)" using inv_at_ref[OF coh assms(2)] by simp
  let ?s1 = "work t c (Inl e) s"
  let ?s2 = "cleanup t c None ?s1"
  have st1: "step (Work t (Inl e)) s = Some ?s1" using assms(2) by simp
  have coh1: "coherent ?s1" using coherent_step[OF st1 coh] .
  have lead: "runs (heap s ! c) = 0" using inv_leader_at[OF coh assms(2)] by simp
  have s1: "errors (stats ?s1) = errors (stats s) + 1" "c < length (heap ?s1)"
    "runs (heap ?s1 ! c) = 1" "result (heap ?s1 ! c) = Failure e"
    "at_pc ?s1 t = Some (Finishing c None)" "key_of ?s1 t = key_of s t"
    using assms(2,3) c lead by (simp_all add: work_def Let_def)
  have att: "attached_to s t c" using assms(2) by simp
  have after: "result (heap s' ! c) = Failure e \<and>
              (\<forall>u. attached_to s u c \<longrightarrow> attached_to s' u c) \<and>
              (\<forall>u. attached_to s' u c \<longrightarrow>
                 (\<exists>cs s''. run cs s' = Some s'' \<and>
                    at_pc s'' u = Some (Done (Some c) (Raised e)))) \<and>
              (\<forall>u out. at_pc s' u = Some (Done (Some c) out) \<longrightarrow> out = Raised e) \<and>
              (reset_free (as @ Work t (Inl e) # bs) \<longrightarrow> errors (stats s') = int (failures s'))"
    if bs: "run bs ?s1 = Some s'" for bs s'
  proof -
    have coh': "coherent s'" using coherent_run[OF bs coh1] .
    have res: "result (heap s' ! c) = Failure e"
      using ran_stable_run[OF bs coh1 s1(2,3)] s1(4) by simp
    have stay: "attached_to s' u c" if "attached_to s u c" for u
      using attached_stable_run[OF bs attached_stable[OF st1 that]] .
    have live: "\<exists>cs s''. run cs s' = Some s'' \<and> at_pc s'' u = Some (Done (Some c) (Raised e))"
      if "attached_to s' u c" for u
      using can_receive[OF coh' that res] .
    have outs: "out = Raised e" if "at_pc s' u = Some (Done (Some c) out)" for u out
      using inv_done[OF coh' that] res by auto
    have all: "run (as @ Work t (Inl e) # bs) SharedCall = Some s'"
      using assms(1) st1 bs by (simp add: run_append)
    have "errors (stats s') = int (failures s')" if "reset_free (as @ Work t (Inl e) # bs)"
      using ledger_run[OF all that inv_init ledger_init] by (simp add: ledger_def)
    then show ?thesis using res stay live outs by blast
  qed
  have st2: "step (Cleanup t) ?s1 = Some ?s2" using s1(5) by simp
  have gone: "map_of (in_flight_calls ?s2) (key_of s t) = None"
    using s1(6) by (simp add: cleanup_def key_of_def delete_conv')
  have again: "\<exists>s3. step (Register u) ?s2 = Some s3 \<and> at_pc s3 u = Some (Leading (length (heap ?s2)))"
    if "at_pc ?s2 u = Some AtLock" "key_of ?s2 u = key_of s t" for u
    using that gone by (simp add: register_leader)
  show ?thesis
    using st1 s1(1) att after st2 gone again by blast
qed


theorem failure_is_shared_witness:
  "run [Invoke (Some ''K'') ''app'' ''load'' (Inr ''7''), Register 0,
        Invoke (Some ''K'') ''app'' ''load'' (Inr ''7''), Register 1] SharedCall
     = Some \<lparr>in_flight_calls = [(''K'', 0)],
         stats = \<lparr>hits = 1, misses = 1, errors = 0, in_flight = 1\<rparr>,
         heap = [SyncCall :: nat sync_call],
         callers = [\<lparr>key = ''K'', pc = Leading 0\<rparr>, \<lparr>key = ''K'', pc = Waiting 0\<rparr>]\<rparr> \<and>
   caught (Exception 7) \<and>
   map_option (\<lambda>s. errors (stats s))
     (step (Work 0 (Inl (Exception 7)))
        \<lparr>in_flight_calls = [(''K'', 0)],
         stats = \<lparr>hits = 1, misses = 1, errors = 0, in_flight = 1\<rparr>,
         heap = [SyncCall :: nat sync_call],
         callers = [\<lparr>key = ''K'', pc = Leading 0\<rparr>, \<lparr>key = ''K'', pc = Waiting 0\<rparr>]\<rparr>)
     = Some 1 \<and>
   map_option (\<lambda>s. (map pc (callers s), errors (get_stats s), in_flight_calls s))
     (run [Work 0 (Inl (Exception 7)), Cleanup 0, SetEvent 0, Return 0, Return 1]
        \<lparr>in_flight_calls = [(''K'', 0)],
         stats = \<lparr>hits = 1, misses = 1, errors = 0, in_flight = 1\<rparr>,
         heap = [SyncCall :: nat sync_call],
         callers = [\<lparr>key = ''K'', pc = Leading 0\<rparr>, \<lparr>key = ''K'', pc = Waiting 0\<rparr>]\<rparr>)
     = Some ([Done (Some 0) (Raised (Exception 7)), Done (Some 0) (Raised (Exception 7))], 1, [])"
proof -
  let ?as = "[Invoke (Some ''K'') ''app'' ''load'' (Inr ''7''), Register 0,
        Invoke (Some ''K'') ''app'' ''load'' (Inr ''7''), Register 1] :: nat action list"
  let ?s = "\<lparr>in_flight_calls = [(''K'', 0)],
         stats = \<lparr>hits = 1, misses = 1, errors = 0, in_flight = 1\<rparr>,
         heap = [SyncCall :: nat sync_call],
         callers = [\<lparr>key = ''K'', pc = Leading 0\<rparr>, \<lparr>key = ''K'', pc = Waiting 0\<rparr>]\<rparr>"
  have r: "run ?as SharedCall = Some ?s"
    by (simp add: call_key_def at_pc_def register_def goto_def SharedCall_def Stats_def Let_def)
  have a: "at_pc ?s 0 = Some (Leading 0)" by (simp add: at_pc_def)
  have e: "caught (Exception 7)" by simp
  obtain s1 where "step (Work 0 (Inl (Exception 7))) ?s = Some s1"
      "errors (stats s1) = errors (stats ?s) + 1"
    using failure_is_shared[OF r a e] by blast
  then have w: "map_option (\<lambda>s. errors (stats s)) (step (Work 0 (Inl (Exception 7))) ?s) = Some 1"
    by simp
  have full: "map_option (\<lambda>s. (map pc (callers s), errors (get_stats s), in_flight_calls s))
     (run [Work 0 (Inl (Exception 7)), Cleanup 0, SetEvent 0, Return 0, Return 1] ?s)
     = Some ([Done (Some 0) (Raised (Exception 7)), Done (Some 0) (Raised (Exception 7))], 1, [])"
    by (simp add: at_pc_def goto_def work_def cleanup_def set_event_def get_stats_def
        SyncCall_def Let_def)
  show ?thesis
    by (intro conjI) (rule r e w full)+
qed

text \<open>
  C2: take any schedule from a new coordinator, without \<^verbatim>\<open>forget\<close>, \<^verbatim>\<open>forget_all\<close> and
  \<^verbatim>\<open>reset_stats\<close>, in which every invocation has the key \<open>K\<close> and every caller registers
  before a leader reaches lines 54-56 (the calls overlap). If it ends with all \<open>N \<ge> 1\<close>
  callers having returned a value, \<^verbatim>\<open>get_stats\<close> gives \<open>hits = N - 1\<close>, \<open>misses = 1\<close>,
  \<open>errors = 0\<close> and \<open>in_flight = 0\<close>.
\<close>

theorem stats_after_coalesced_calls:
  assumes "run as SharedCall = Some s" "same_key K as" "forget_free as" "reset_free as"
    "registrations_first as" "callers s \<noteq> []" "all_returned s"
  shows "get_stats s = \<lparr>hits = int (length (callers s)) - 1, misses = 1, errors = 0, in_flight = 0\<rparr>"
proof -
  have coh: "coherent s" using assms(1) by (rule coherent_reachable)
  have led: "ledger s" using ledger_run[OF assms(1,4) inv_init ledger_init] .
  have one: "length (heap s) \<le> 1"
    using one_call_run[OF assms(1) keyed_init gathering_init assms(2,3,5)] .
  obtain c v where c: "at_pc s 0 = Some (Done (Some c) (Returned v))"
    using all_returned_at[OF assms(7), of 0] assms(6) by auto
  have "c < length (heap s)" using inv_at_ref[OF coh c] by simp
  then have len: "length (heap s) = 1" and c0: "c = 0" using one by simp_all
  have "Returned v = unwrap (result (heap s ! 0))"
    using inv_done[OF coh c] c0 by auto
  then have "\<not> failed (result (heap s ! 0))" by (cases "result (heap s ! 0)") simp_all
  moreover have "heap s = [heap s ! 0]" using len by (cases "heap s") simp_all
  ultimately have nofail: "failures s = 0"
    unfolding failures_def by (metis filter.simps length_0_conv)
  have reg: "count_pc registered s = length (callers s)"
    using assms(7) by (intro count_all) (auto simp: all_returned_def list_all_iff dest: returned_registered)
  have fly: "count_pc flying s = 0"
    using assms(7) by (intro count_none) (auto simp: all_returned_def list_all_iff dest: returned_registered)
  have "hits (stats s) = int (length (callers s)) - 1" "misses (stats s) = 1"
    "errors (stats s) = 0" "in_flight (stats s) = 0"
    using led len nofail reg fly by (simp_all add: ledger_def)
  then show ?thesis by (simp add: get_stats_def)
qed


theorem stats_after_coalesced_calls_witness:
  "same_key ''tests.heavy:21''
     [Invoke None ''tests'' ''heavy'' (Inr ''21''), Register 0, Invoke None ''tests'' ''heavy'' (Inr ''21''),
      Register 1, Invoke None ''tests'' ''heavy'' (Inr ''21''), Register 2,
      Invoke None ''tests'' ''heavy'' (Inr ''21''), Register 3, Invoke None ''tests'' ''heavy'' (Inr ''21''),
      Register 4, Invoke None ''tests'' ''heavy'' (Inr ''21''), Register 5,
      Work 0 (Inr (42 :: nat)), Cleanup 0, SetEvent 0,
      Return 0, Return 1, Return 2,
      Return 3, Return 4, Return 5] \<and>
   forget_free
     [Invoke None ''tests'' ''heavy'' (Inr ''21''), Register 0, Invoke None ''tests'' ''heavy'' (Inr ''21''),
      Register 1, Invoke None ''tests'' ''heavy'' (Inr ''21''), Register 2,
      Invoke None ''tests'' ''heavy'' (Inr ''21''), Register 3, Invoke None ''tests'' ''heavy'' (Inr ''21''),
      Register 4, Invoke None ''tests'' ''heavy'' (Inr ''21''), Register 5,
      Work 0 (Inr (42 :: nat)), Cleanup 0, SetEvent 0,
      Return 0, Return 1, Return 2,
      Return 3, Return 4, Return 5] \<and>
   reset_free
     [Invoke None ''tests'' ''heavy'' (Inr ''21''), Register 0, Invoke None ''tests'' ''heavy'' (Inr ''21''),
      Register 1, Invoke None ''tests'' ''heavy'' (Inr ''21''), Register 2,
      Invoke None ''tests'' ''heavy'' (Inr ''21''), Register 3, Invoke None ''tests'' ''heavy'' (Inr ''21''),
      Register 4, Invoke None ''tests'' ''heavy'' (Inr ''21''), Register 5,
      Work 0 (Inr (42 :: nat)), Cleanup 0, SetEvent 0,
      Return 0, Return 1, Return 2,
      Return 3, Return 4, Return 5] \<and>
   registrations_first
     [Invoke None ''tests'' ''heavy'' (Inr ''21''), Register 0, Invoke None ''tests'' ''heavy'' (Inr ''21''),
      Register 1, Invoke None ''tests'' ''heavy'' (Inr ''21''), Register 2,
      Invoke None ''tests'' ''heavy'' (Inr ''21''), Register 3, Invoke None ''tests'' ''heavy'' (Inr ''21''),
      Register 4, Invoke None ''tests'' ''heavy'' (Inr ''21''), Register 5,
      Work 0 (Inr (42 :: nat)), Cleanup 0, SetEvent 0,
      Return 0, Return 1, Return 2,
      Return 3, Return 4, Return 5] \<and>
   map_option (\<lambda>s. (callers s \<noteq> [], all_returned s, get_stats s))
     (run
     [Invoke None ''tests'' ''heavy'' (Inr ''21''), Register 0, Invoke None ''tests'' ''heavy'' (Inr ''21''),
      Register 1, Invoke None ''tests'' ''heavy'' (Inr ''21''), Register 2,
      Invoke None ''tests'' ''heavy'' (Inr ''21''), Register 3, Invoke None ''tests'' ''heavy'' (Inr ''21''),
      Register 4, Invoke None ''tests'' ''heavy'' (Inr ''21''), Register 5,
      Work 0 (Inr (42 :: nat)), Cleanup 0, SetEvent 0,
      Return 0, Return 1, Return 2,
      Return 3, Return 4, Return 5] SharedCall)
   = Some (True, True, \<lparr>hits = 5, misses = 1, errors = 0, in_flight = 0\<rparr>)"
proof -
  let ?as = "[Invoke None ''tests'' ''heavy'' (Inr ''21''), Register 0, Invoke None ''tests'' ''heavy'' (Inr ''21''),
      Register 1, Invoke None ''tests'' ''heavy'' (Inr ''21''), Register 2,
      Invoke None ''tests'' ''heavy'' (Inr ''21''), Register 3, Invoke None ''tests'' ''heavy'' (Inr ''21''),
      Register 4, Invoke None ''tests'' ''heavy'' (Inr ''21''), Register 5,
      Work 0 (Inr (42 :: nat)), Cleanup 0, SetEvent 0,
      Return 0, Return 1, Return 2,
      Return 3, Return 4, Return 5]"
  have h: "same_key ''tests.heavy:21'' ?as" "forget_free ?as" "reset_free ?as"
    "registrations_first ?as"
    by (simp_all add: same_key_def forget_free_def reset_free_def call_key_def)
  have "\<exists>s. run ?as SharedCall = Some s \<and> callers s \<noteq> [] \<and> all_returned s \<and>
          length (callers s) = 6"
    by (simp add: call_key_def at_pc_def register_def goto_def work_def cleanup_def set_event_def
        SharedCall_def Stats_def SyncCall_def all_returned_def Let_def)
  then obtain s where s: "run ?as SharedCall = Some s" "callers s \<noteq> []" "all_returned s"
      "length (callers s) = 6"
    by blast
  have "get_stats s = \<lparr>hits = 5, misses = 1, errors = 0, in_flight = 0\<rparr>"
    using stats_after_coalesced_calls[OF s(1) h s(2,3)] s(4) by simp
  then have "map_option (\<lambda>s. (callers s \<noteq> [], all_returned s, get_stats s)) (run ?as SharedCall)
      = Some (True, True, \<lparr>hits = 5, misses = 1, errors = 0, in_flight = 0\<rparr>)"
    using s by simp
  then show ?thesis using h by blast
qed

text \<open>
  C1, as stated, fails in its last part when the work function raises an exception that
  \<^verbatim>\<open>except Exception\<close> (line 50) does not catch (\<^verbatim>\<open>KeyboardInterrupt\<close>, \<^verbatim>\<open>SystemExit\<close>, the
  \<^verbatim>\<open>CancelledError\<close> of a cancelled leader task): three callers share the key \<open>K\<close> and
  overlap, the work function runs once, the leader leaves \<^verbatim>\<open>call\<close> with the exception and
  the two followers unwrap a result that was never set.
\<close>

theorem uncaught_failure_splits_outcomes:
  "map_option (\<lambda>s. (executions s, map pc (callers s)))
     (run [Invoke (Some ''K'') ''app'' ''load'' (Inr ''7''), Register 0,
           Invoke (Some ''K'') ''app'' ''load'' (Inr ''7''), Register 1,
           Invoke (Some ''K'') ''app'' ''load'' (Inr ''7''), Register 2,
           Work 0 (Inl (BaseException 1)), Cleanup 0, SetEvent 0, Return 1, Return 2]
        (SharedCall :: nat system))
   = Some (1, [Done (Some 0) (Raised (BaseException 1)), Done (Some 0) UnsetRead,
               Done (Some 0) UnsetRead])"
  by (simp add: call_key_def at_pc_def register_def goto_def work_def cleanup_def set_event_def
      SharedCall_def Stats_def SyncCall_def executions_def Let_def)

text \<open>
  C1, amended. Take any schedule from a new coordinator, without \<^verbatim>\<open>forget\<close> and
  \<^verbatim>\<open>forget_all\<close>, in which every invocation has the key \<open>K\<close> and every caller registers
  before a leader reaches lines 54-56 (the calls overlap), and any state it reaches. There
  is at most one call object and the work function has run at most once; no two callers
  are leaders at the same time; all registered callers are attached to the same call
  object; a leader's work step is enabled and is the one execution; and when all
  \<open>N \<ge> 1\<close> callers have left \<^verbatim>\<open>call\<close>, exactly one call object was created (one caller
  became leader) and the work function has run exactly once. If moreover whatever the
  work function raises derives from \<^verbatim>\<open>Exception\<close>, then once the work has run every
  registered caller can go on to leave \<^verbatim>\<open>call\<close> with what \<^verbatim>\<open>unwrap\<close> makes of the one
  stored result, and when all have left, each of them holds exactly that: the same value,
  or the same exception object.
\<close>

theorem one_execution_shared_outcome:
  assumes "run as SharedCall = Some s" "same_key K as" "forget_free as"
    "registrations_first as"
  shows "length (heap s) \<le> 1 \<and> executions s \<le> 1 \<and>
         (\<forall>t u c d. leads s t c \<and> leads s u d \<longrightarrow> t = u) \<and>
         (\<forall>u c. attached_to s u c \<longrightarrow> c = 0) \<and>
         (\<forall>t c r. at_pc s t = Some (Leading c) \<longrightarrow>
            (\<exists>s1. step (Work t r) s = Some s1 \<and> runs (heap s1 ! c) = 1)) \<and>
         (all_done s \<and> callers s \<noteq> [] \<longrightarrow> length (heap s) = 1 \<and> executions s = 1) \<and>
         (ordinary_failures as \<longrightarrow>
            (\<forall>u c. attached_to s u c \<and> runs (heap s ! c) = 1 \<longrightarrow>
               (\<exists>cs s'. run cs s = Some s' \<and>
                  at_pc s' u = Some (Done (Some c) (unwrap (result (heap s ! c)))))) \<and>
            (all_done s \<longrightarrow>
               (\<forall>t < length (callers s).
                  pc (callers s ! t) = Done (Some 0) (unwrap (result (heap s ! 0))))))"
proof -
  have coh: "coherent s" using assms(1) by (rule coherent_reachable)
  have keyed: "keyed K s" using keyed_run[OF assms(1) keyed_init assms(2)] .
  have one: "length (heap s) \<le> 1"
    using one_call_run[OF assms(1) keyed_init gathering_init assms(2,3,4)] .
  have ex: "executions s \<le> 1"
    using executions_one_call[OF one] runs_le_1[OF coh, of 0] by (cases "heap s") auto
  have uniq: "t = u" if "leads s t c" "leads s u d" for t u c d
  proof -
    have "c < length (heap s)" "d < length (heap s)"
      using inv_leads_ref[OF coh] that by blast+
    then have "c = d" using one by simp
    then show ?thesis using inv_unique[OF coh] that by blast
  qed
  have same: "c = 0" if "attached_to s u c" for u c
    using inv_refs[OF coh that] one by simp
  have works: "\<exists>s1. step (Work t r) s = Some s1 \<and> runs (heap s1 ! c) = 1"
    if "at_pc s t = Some (Leading c)" for t c r
  proof -
    have "c < length (heap s)" "runs (heap s ! c) = 0"
      using inv_at_ref[OF coh that] inv_leader_at[OF coh that] by simp_all
    then have "runs (heap (work t c r s) ! c) = 1"
      by (cases r) (simp_all add: work_def Let_def)
    then show ?thesis using that by simp
  qed
  have shape: "\<exists>out. at_pc s t = Some (Done (Some 0) out)"
    if h: "all_done s" "t < length (callers s)" for t
  proof -
    obtain p where p: "at_pc s t = Some p" using h(2) by (simp add: at_pc_def)
    then have "finished p" using all_done_at[OF h(1)] by blast
    moreover have "finished p \<longrightarrow> attached p \<noteq> None" using keyed p by (simp add: keyed_def)
    ultimately obtain c out where c: "p = Done (Some c) out" by (cases p) auto
    then have "c < length (heap s)" using inv_at_ref[OF coh p] by simp
    then have "c = 0" using one by simp
    then show ?thesis using p c by simp
  qed
  have fin: "length (heap s) = 1 \<and> executions s = 1"
    if h: "all_done s" "callers s \<noteq> []"
  proof -
    have "0 < length (callers s)" using h(2) by simp
    then obtain out where "at_pc s 0 = Some (Done (Some 0) out)" using shape[OF h(1)] by blast
    then have a0: "attached_to s 0 0" by simp
    have "0 < length (heap s)" using inv_refs[OF coh a0] .
    then have len: "length (heap s) = 1" using one by linarith
    have "runs (heap s ! 0) = 1" using done_ran[OF coh h(1) a0] by simp
    then have "executions s = 1" using executions_one_call[OF one] len by auto
    then show ?thesis using len by blast
  qed
  have ord: "(\<forall>u c. attached_to s u c \<and> runs (heap s ! c) = 1 \<longrightarrow>
               (\<exists>cs s'. run cs s = Some s' \<and>
                  at_pc s' u = Some (Done (Some c) (unwrap (result (heap s ! c)))))) \<and>
            (all_done s \<longrightarrow>
               (\<forall>t < length (callers s).
                  pc (callers s ! t) = Done (Some 0) (unwrap (result (heap s ! 0)))))"
    if o: "ordinary_failures as"
  proof -
    have calm: "calm s" using calm_run[OF assms(1) inv_init calm_init o] .
    have live: "\<exists>cs s'. run cs s = Some s' \<and>
               at_pc s' u = Some (Done (Some c) (unwrap (result (heap s ! c))))"
      if "attached_to s u c \<and> runs (heap s ! c) = 1" for u c
      using can_finish[OF coh calm] that by blast
    have outs: "pc (callers s ! t) = Done (Some 0) (unwrap (result (heap s ! 0)))"
      if h: "all_done s" "t < length (callers s)" for t
    proof -
      obtain out where out: "at_pc s t = Some (Done (Some 0) out)" using shape[OF h] by blast
      then have "out = unwrap (result (heap s ! 0))" using calm_done[OF calm] by blast
      then show ?thesis using out h(2) by (simp add: at_pc_def)
    qed
    show ?thesis using live outs by blast
  qed
  show ?thesis
    apply (intro conjI)
    subgoal by (rule one)
    subgoal by (rule ex)
    subgoal using uniq by blast
    subgoal using same by blast
    subgoal using works by blast
    subgoal using fin by blast
    subgoal using ord by blast
    done
qed

theorem one_execution_shared_outcome_witness:
  "same_key ''K''
     [Invoke (Some ''K'') ''app'' ''load'' (Inr ''7''), Register 0,
      Invoke (Some ''K'') ''app'' ''load'' (Inr ''7''), Register 1,
      Invoke (Some ''K'') ''app'' ''load'' (Inr ''7''), Register 2,
      Work 0 (Inl (Exception 3)), Cleanup 0, SetEvent 0, Return 0, Return 1, Return 2
      :: nat action] \<and>
   forget_free
     [Invoke (Some ''K'') ''app'' ''load'' (Inr ''7''), Register 0,
      Invoke (Some ''K'') ''app'' ''load'' (Inr ''7''), Register 1,
      Invoke (Some ''K'') ''app'' ''load'' (Inr ''7''), Register 2,
      Work 0 (Inl (Exception 3)), Cleanup 0, SetEvent 0, Return 0, Return 1, Return 2
      :: nat action] \<and>
   registrations_first
     [Invoke (Some ''K'') ''app'' ''load'' (Inr ''7''), Register 0,
      Invoke (Some ''K'') ''app'' ''load'' (Inr ''7''), Register 1,
      Invoke (Some ''K'') ''app'' ''load'' (Inr ''7''), Register 2,
      Work 0 (Inl (Exception 3)), Cleanup 0, SetEvent 0, Return 0, Return 1, Return 2
      :: nat action] \<and>
   ordinary_failures
     [Invoke (Some ''K'') ''app'' ''load'' (Inr ''7''), Register 0,
      Invoke (Some ''K'') ''app'' ''load'' (Inr ''7''), Register 1,
      Invoke (Some ''K'') ''app'' ''load'' (Inr ''7''), Register 2,
      Work 0 (Inl (Exception 3)), Cleanup 0, SetEvent 0, Return 0, Return 1, Return 2
      :: nat action] \<and>
   map_option (\<lambda>s. (all_done s, executions s, map pc (callers s)))
     (run
     [Invoke (Some ''K'') ''app'' ''load'' (Inr ''7''), Register 0,
      Invoke (Some ''K'') ''app'' ''load'' (Inr ''7''), Register 1,
      Invoke (Some ''K'') ''app'' ''load'' (Inr ''7''), Register 2,
      Work 0 (Inl (Exception 3)), Cleanup 0, SetEvent 0, Return 0, Return 1, Return 2
      :: nat action] SharedCall)
   = Some (True, 1, [Done (Some 0) (Raised (Exception 3)), Done (Some 0) (Raised (Exception 3)),
                     Done (Some 0) (Raised (Exception 3))])"
proof -
  let ?as = "[Invoke (Some ''K'') ''app'' ''load'' (Inr ''7''), Register 0,
      Invoke (Some ''K'') ''app'' ''load'' (Inr ''7''), Register 1,
      Invoke (Some ''K'') ''app'' ''load'' (Inr ''7''), Register 2,
      Work 0 (Inl (Exception 3)), Cleanup 0, SetEvent 0, Return 0, Return 1, Return 2
      :: nat action]"
  have h: "same_key ''K'' ?as" "forget_free ?as" "registrations_first ?as" "ordinary_failures ?as"
    by (simp_all add: same_key_def forget_free_def ordinary_failures_def call_key_def)
  have "\<exists>s. run ?as SharedCall = Some s \<and> callers s \<noteq> [] \<and> all_done s \<and>
          map pc (callers s) = [Done (Some 0) (Raised (Exception 3)),
            Done (Some 0) (Raised (Exception 3)), Done (Some 0) (Raised (Exception 3))]"
    by (simp add: call_key_def at_pc_def register_def goto_def work_def cleanup_def set_event_def
        SharedCall_def Stats_def SyncCall_def all_done_def Let_def)
  then obtain s where s: "run ?as SharedCall = Some s" "callers s \<noteq> []" "all_done s"
      "map pc (callers s) = [Done (Some 0) (Raised (Exception 3)),
            Done (Some 0) (Raised (Exception 3)), Done (Some 0) (Raised (Exception 3))]"
    by (elim exE conjE)
  note T = one_execution_shared_outcome[OF s(1) h(1,2,3)]
  have "all_done s \<and> callers s \<noteq> [] \<longrightarrow> length (heap s) = 1 \<and> executions s = 1"
    using T by (elim conjE)
  then have x: "executions s = 1" using s(2,3) by (elim impE conjE) (intro conjI)
  have w: "map_option (\<lambda>s. (all_done s, executions s, map pc (callers s))) (run ?as SharedCall)
      = Some (True, 1, [Done (Some 0) (Raised (Exception 3)), Done (Some 0) (Raised (Exception 3)),
                     Done (Some 0) (Raised (Exception 3))])"
    unfolding s(1) using s(3,4) x by simp
  show ?thesis
    by (intro conjI) (rule h w)+
qed

end
